theory Spec2Isabelle
  imports Complex_Main
begin

section \<open>Operators\<close>

text \<open>
  The Go type \<open>Op\<close> is a byte whose constants are numbered by \<open>iota\<close>; the program
  only ever builds the nine named constants, so the model is an enumeration and
  \<open>op_code\<close> gives the constant's number, on which \<open>unary\<close> and \<open>binary\<close> compare.
\<close>

datatype Op = OpNull | OpAdd | OpSub | OpMul | OpDiv | OpPow | OpFact | OpSqrt | OpMinus

fun op_code :: "Op \<Rightarrow> nat" where
  "op_code OpNull = 0"
| "op_code OpAdd = 1"
| "op_code OpSub = 2"
| "op_code OpMul = 3"
| "op_code OpDiv = 4"
| "op_code OpPow = 5"
| "op_code OpFact = 6"
| "op_code OpSqrt = 7"
| "op_code OpMinus = 8"

fun opNames :: "Op \<Rightarrow> string" where
  "opNames OpNull = ''null''"
| "opNames OpAdd = ''+''"
| "opNames OpSub = ''-''"
| "opNames OpMul = ''*''"
| "opNames OpDiv = ''/''"
| "opNames OpPow = ''^''"
| "opNames OpFact = ''!''"
| "opNames OpSqrt = ''sqrt''"
| "opNames OpMinus = ''--''"

definition unary :: "Op \<Rightarrow> bool" where
  "unary p = (op_code OpFact \<le> op_code p)"

definition binary :: "Op \<Rightarrow> bool" where
  "binary p = (op_code OpAdd \<le> op_code p \<and> op_code p \<le> op_code OpPow)"

section \<open>Errors\<close>

text \<open>
  A Go \<open>error\<close> built by \<open>fmt.Errorf\<close> is identified with its message. A run-time
  panic (a nil dereference, a method call on a nil interface, the explicit panic of
  \<open>newNode\<close>) is not an error value: it unwinds through every caller, so it is a
  constructor of its own that no \<open>err != nil\<close> test of the model catches.
\<close>

datatype error = Errorf string | Panic string

definition nil_dereference :: error where
  "nil_dereference = Panic ''invalid memory address or nil pointer dereference''"

text \<open>
  The single quote of the messages. Where a format prints a node with \<open>%s\<close> or \<open>%v\<close>
  (a node has no method \<open>String\<close>, so that text renders the struct, pointers included),
  the model keeps the rest of the message and leaves that text out.
\<close>

definition quote :: string where
  "quote = [CHR 0x27]"

section \<open>Rational values\<close>

text \<open>
  Modelled from the spec: the type \<open>rational\<close> that implements the interface \<open>Value\<close>,
  with its constructors and methods, is not among the source files. Following sections
  3, 6 and 7 of the specification it is exact rational arithmetic whose operations fail
  with an arithmetic error on division by zero, on a negative-domain root (the root of a
  negative value), on a non-integral root (a root that is not an integer), on a
  factorial of a negative or non-integral argument and on a power whose exponent is not
  an integer; its textual form is numerator, slash, denominator in lowest terms.

  The interface type \<open>Value\<close> itself is in the source. A Go interface value may be nil,
  which is \<open>None\<close> here; a method call on it panics.
\<close>

type_synonym rational = rat

type_synonym Value = "rational option"

definition is_integer :: "rational \<Rightarrow> bool" where
  "is_integer r = (snd (quotient_of r) = 1)"

definition nat_sqrt :: "nat \<Rightarrow> nat option" where
  "nat_sqrt n = find (\<lambda>m. m * m = n) [0..<Suc n]"

text \<open>
  The square root succeeds on the squares of the natural numbers, where the root is
  integral, and nowhere else; \<open>root_error\<close> is the error of the two other cases.
\<close>

definition non_integral_root :: error where
  "non_integral_root = Errorf ''arithmetic error: non-integral root''"

definition root_error :: "rational \<Rightarrow> error" where
  "root_error r =
     (if r < 0 then Errorf ''arithmetic error: negative-domain root'' else non_integral_root)"

definition rational_sqrt :: "rational \<Rightarrow> rational option" where
  "rational_sqrt r =
     (if r < 0 \<or> \<not> is_integer r then None
      else map_option of_nat (nat_sqrt (nat (fst (quotient_of r)))))"

definition rational_pow :: "rational \<Rightarrow> rational \<Rightarrow> rational option" where
  "rational_pow r e =
     (if \<not> is_integer e then None
      else let k = fst (quotient_of e) in
        if 0 \<le> k then Some (r ^ nat k)
        else if r = 0 then None
        else Some ((1 / r) ^ nat (- k)))"

definition rational_PerformUnary :: "rational \<Rightarrow> Op \<Rightarrow> error + Value" where
  "rational_PerformUnary r p =
     (if p = OpMinus then Inr (Some (- r))
      else if p = OpSqrt then
        (case rational_sqrt r of
           None \<Rightarrow> Inl (root_error r)
         | Some q \<Rightarrow> Inr (Some q))
      else if p = OpFact then
        (if is_integer r \<and> 0 \<le> r then Inr (Some (of_nat (fact (nat (fst (quotient_of r))))))
         else Inl (Errorf ''arithmetic error: factorial of a negative or non-integral value''))
      else Inl (Errorf ''arithmetic error: not a unary operator''))"

definition rational_PerformBinary :: "rational \<Rightarrow> Op \<Rightarrow> rational \<Rightarrow> error + Value" where
  "rational_PerformBinary r p w =
     (if p = OpAdd then Inr (Some (r + w))
      else if p = OpSub then Inr (Some (r - w))
      else if p = OpMul then Inr (Some (r * w))
      else if p = OpDiv then
        (if w = 0 then Inl (Errorf ''arithmetic error: division by zero'')
         else Inr (Some (r / w)))
      else if p = OpPow then
        (case rational_pow r w of
           None \<Rightarrow> Inl (Errorf ''arithmetic error: power not defined'')
         | Some q \<Rightarrow> Inr (Some q))
      else Inl (Errorf ''arithmetic error: not a binary operator''))"

definition rational_Even :: "rational \<Rightarrow> bool" where
  "rational_Even r = (is_integer r \<and> even (fst (quotient_of r)))"

text \<open>The methods of the interface, called on a possibly nil \<open>Value\<close>.\<close>

definition PerformUnary :: "Value \<Rightarrow> Op \<Rightarrow> error + Value" where
  "PerformUnary v p =
     (case v of None \<Rightarrow> Inl nil_dereference | Some r \<Rightarrow> rational_PerformUnary r p)"

definition PerformBinary :: "Value \<Rightarrow> Op \<Rightarrow> Value \<Rightarrow> error + Value" where
  "PerformBinary v p w =
     (case v of
        None \<Rightarrow> Inl nil_dereference
      | Some r \<Rightarrow> (case w of
                    None \<Rightarrow> Inl nil_dereference
                  | Some r' \<Rightarrow> rational_PerformBinary r p r'))"

definition Even :: "Value \<Rightarrow> error + bool" where
  "Even v = (case v of None \<Rightarrow> Inl nil_dereference | Some r \<Rightarrow> Inr (rational_Even r))"

definition Value_Equal :: "Value \<Rightarrow> Value \<Rightarrow> error + bool" where
  "Value_Equal v w =
     (case v of
        None \<Rightarrow> Inl nil_dereference
      | Some r \<Rightarrow> (case w of None \<Rightarrow> Inl nil_dereference | Some r' \<Rightarrow> Inr (r = r')))"

section \<open>Formula nodes\<close>

text \<open>
  The struct \<open>Node\<close> with its four fields in the order of the source. The two child
  pointers may be nil (\<open>None\<close>). The model is a tree: two nodes of the heap that are
  the same pointer are the same subtree here, and no node is its own descendant.
\<close>

datatype Node = Node (left: "Node option") (right: "Node option") (val: Value) (op: Op)

definition valid :: "Node \<Rightarrow> bool" where
  "valid n =
     (if op n = OpNull then left n = None \<and> right n = None
      else if op_code (op n) \<le> op_code OpPow then left n \<noteq> None \<and> right n \<noteq> None
      else left n \<noteq> None \<and> right n = None)"

definition newNode :: "Node option \<Rightarrow> Op \<Rightarrow> Node option \<Rightarrow> error + Node" where
  "newNode l p r =
     (let n = Node l r None p in
      if \<not> valid n then Inl (Panic ''Cannot create non-valid node: '') else Inr n)"

definition newValNode :: "Value \<Rightarrow> Node" where
  "newValNode v = Node None None v OpNull"

text \<open>
  Modelled from the spec: \<open>newRational\<close>, which \<open>newIntNode\<close> calls, is not among the
  source files; \<open>newRational(val, 1)\<close> is the rational \<open>val/1\<close>, built without error.
  The \<open>int64\<close> argument is an \<open>int\<close> here.
\<close>

definition newIntNode :: "int \<Rightarrow> Node" where
  "newIntNode v = Node None None (Some (of_int v)) OpNull"

lemma size_left [termination_simp]: "left n = Some l \<Longrightarrow> size l < size n"
  by (cases n) simp

lemma size_right [termination_simp]: "right n = Some r \<Longrightarrow> size r < size n"
  by (cases n) simp

text \<open>
  A tree is well formed when every node of it passes \<open>valid\<close> and every leaf holds a
  value: what the constructors \<open>newNode\<close> and \<open>newValNode\<close> build from rationals.
\<close>

fun valid_tree :: "Node \<Rightarrow> bool" where
  "valid_tree n =
     (valid n \<and> (op n = OpNull \<longrightarrow> val n \<noteq> None)
      \<and> (case left n of None \<Rightarrow> True | Some l \<Rightarrow> valid_tree l)
      \<and> (case right n of None \<Rightarrow> True | Some r \<Rightarrow> valid_tree r))"

section \<open>Evaluation\<close>

text \<open>
  \<open>Eval\<close> returns a pair of a value and an error in Go; the value that accompanies a
  non-nil error is a placeholder no caller reads, so the model returns the error alone.
  The message of an invalid node is the format \<open>invalid formula %s\<close> without the text of
  the node.
\<close>

fun Eval :: "Node \<Rightarrow> error + Value" where
  "Eval n =
     (if \<not> valid n then Inl (Errorf ''invalid formula '')
      else if op n = OpNull then Inr (val n)
      else if binary (op n) then
        (case left n of
           None \<Rightarrow> Inl nil_dereference
         | Some l \<Rightarrow>
             (case Eval l of
                Inl err \<Rightarrow> Inl err
              | Inr lv \<Rightarrow>
                  (case right n of
                     None \<Rightarrow> Inl nil_dereference
                   | Some r \<Rightarrow>
                       (case Eval r of
                          Inl err \<Rightarrow> Inl err
                        | Inr rv \<Rightarrow> PerformBinary lv (op n) rv))))
      else
        (case left n of
           None \<Rightarrow> Inl nil_dereference
         | Some l \<Rightarrow>
             (case Eval l of
                Inl err \<Rightarrow> Inl err
              | Inr lv \<Rightarrow> PerformUnary lv (op n))))"

declare Eval.simps [simp del]

section \<open>Text\<close>

text \<open>
  A Go string is a sequence of bytes, a \<open>string\<close> here. \<open>strings.TrimSpace\<close> strips
  Unicode white space; on the bytes below 128 that is tab, line feed, vertical tab, form
  feed, carriage return and space. The white space beyond ASCII (several bytes each in
  UTF-8) is outside the model, whose inputs are ASCII.
\<close>

definition isSpace :: "char \<Rightarrow> bool" where
  "isSpace c = (c \<in> set [CHR 0x09, CHR 0x0A, CHR 0x0B, CHR 0x0C, CHR 0x0D, CHR '' ''])"

definition TrimSpace :: "string \<Rightarrow> string" where
  "TrimSpace s = rev (dropWhile isSpace (rev (dropWhile isSpace s)))"

definition HasPrefix :: "string \<Rightarrow> string \<Rightarrow> bool" where
  "HasPrefix s p = (take (length p) s = p)"

definition isDigit :: "char \<Rightarrow> bool" where
  "isDigit c = (c \<in> set ''0123456789'')"

text \<open>
  The regular expression \<open>^\s*-?[0-9]+(/[0-9]+)?\<close> of \<open>ratRx\<close>, where \<open>\s\<close> is tab,
  line feed, form feed, carriage return or space. \<open>FindStringIndex\<close> returns the bounds
  of the leftmost match; the anchor makes the first bound 0, so the model returns the
  second alone. Every repetition is greedy, and giving up a white-space byte, the sign
  or a digit never lets a later part match, so the match is found without backtracking:
  the white space, the optional sign, the digits (at least one), and the slash with its
  digits when at least one digit follows the slash.
\<close>

definition isRxSpace :: "char \<Rightarrow> bool" where
  "isRxSpace c = (c \<in> set [CHR 0x09, CHR 0x0A, CHR 0x0C, CHR 0x0D, CHR '' ''])"

definition ratRx_FindStringIndex :: "string \<Rightarrow> nat option" where
  "ratRx_FindStringIndex s =
     (let ws = length (takeWhile isRxSpace s);
          s1 = drop ws s;
          sg = (if HasPrefix s1 ''-'' then 1 else 0);
          s2 = drop sg s1;
          ds = length (takeWhile isDigit s2);
          s3 = drop ds s2;
          fr = length (takeWhile isDigit (drop 1 s3))
      in if ds = 0 then None
         else if HasPrefix s3 ''/'' \<and> 0 < fr then Some (ws + sg + ds + 1 + fr)
         else Some (ws + sg + ds))"

text \<open>
  Modelled from the spec: \<open>newRationalFromString\<close> and the method \<open>String\<close> of
  \<open>rational\<close> are not among the source files. A rational constant is written as an
  optional minus sign, decimal digits, and optionally a slash and decimal digits;
  constructing the value fails on a zero denominator and on any other text. The textual
  form of a value is its numerator, a slash and its denominator, in lowest terms.
\<close>

definition digit_val :: "char \<Rightarrow> nat" where
  "digit_val c = of_char c - 48"

definition digit_char :: "nat \<Rightarrow> char" where
  "digit_char d = ''0123456789'' ! d"

definition nat_of_digits :: "string \<Rightarrow> nat" where
  "nat_of_digits ds = foldl (\<lambda>a c. 10 * a + digit_val c) 0 ds"

fun show_nat :: "nat \<Rightarrow> string" where
  "show_nat n = (if n < 10 then [digit_char n] else show_nat (n div 10) @ [digit_char (n mod 10)])"

declare show_nat.simps [simp del]

definition newRationalFromString :: "string \<Rightarrow> error + Value" where
  "newRationalFromString s =
     (let neg = HasPrefix s ''-'';
          body = (if neg then drop 1 s else s);
          num = takeWhile isDigit body;
          rest = dropWhile isDigit body;
          den = drop 1 rest;
          n = (if neg then - int (nat_of_digits num) else int (nat_of_digits num))
      in if num = [] then Inl (Errorf ''malformed rational'')
         else if rest = [] then Inr (Some (of_int n))
         else if HasPrefix rest ''/'' \<and> den \<noteq> [] \<and> list_all isDigit den then
           (if nat_of_digits den = 0 then Inl (Errorf ''division by zero'')
            else Inr (Some (of_int n / of_nat (nat_of_digits den))))
         else Inl (Errorf ''malformed rational''))"

definition rational_String :: "rational \<Rightarrow> string" where
  "rational_String r =
     (case quotient_of r of (p, q) \<Rightarrow>
        (if p < 0 then ''-'' else []) @ show_nat (nat \<bar>p\<bar>) @ ''/'' @ show_nat (nat q))"

definition Value_String :: "Value \<Rightarrow> error + string" where
  "Value_String v = (case v of None \<Rightarrow> Inl nil_dereference | Some r \<Rightarrow> Inr (rational_String r))"

section \<open>Serializer\<close>

text \<open>
  \<open>ToPolish\<close> returns a string; the model adds the panic of the call \<open>n.val.String()\<close>
  on a leaf whose value is nil. The text of an invalid node is the format
  \<open>invalid formula: '%s'\<close> without the text of the node.
\<close>

fun ToPolish :: "Node \<Rightarrow> error + string" where
  "ToPolish n =
     (if \<not> valid n then Inr (''invalid formula: '' @ quote @ quote)
      else if op n = OpNull then Value_String (val n)
      else
        (let s = (if op n \<noteq> OpMinus then opNames (op n) else ''--'') in
         case left n of
           None \<Rightarrow> Inl nil_dereference
         | Some l \<Rightarrow>
             (case ToPolish l of
                Inl err \<Rightarrow> Inl err
              | Inr ls \<Rightarrow>
                  if binary (op n) then
                    (case right n of
                       None \<Rightarrow> Inl nil_dereference
                     | Some r \<Rightarrow>
                         (case ToPolish r of
                            Inl err \<Rightarrow> Inl err
                          | Inr rs \<Rightarrow> Inr (s @ '' '' @ ls @ '' '' @ rs)))
                  else Inr (s @ '' '' @ ls))))"

declare ToPolish.simps [simp del]

section \<open>Parser\<close>

text \<open>
  The operator token at the head of a non-empty \<open>s\<close> (the statements of
  \<open>parseNodeFromString\<close> from \<open>var op Op\<close> to the closing brace of its \<open>else\<close>): the
  operator and the rest of the text, or the error and the remainder returned with it.
  The loop ranges over the keys of the map \<open>opNames\<close> in an order Go leaves open; at
  most one name is the one-byte text \<open>s[:1]\<close>, so every order gives the same operator,
  and the model takes the keys in the order of their declaration.
\<close>

definition opKeys :: "Op list" where
  "opKeys = [OpNull, OpAdd, OpSub, OpMul, OpDiv, OpPow, OpFact, OpSqrt, OpMinus]"

definition parseOperator :: "string \<Rightarrow> (error \<times> string) + (Op \<times> string)" where
  "parseOperator s =
     (if HasPrefix s ''sqrt'' then Inr (OpSqrt, drop 4 s)
      else if HasPrefix s ''--'' then Inr (OpMinus, drop 2 s)
      else
        (let p = foldl (\<lambda>p k. if opNames k = take 1 s
                                 then (if k = OpMinus then OpSub else k) else p) OpNull opKeys
         in if p = OpNull
            then Inl (Errorf (''unrecognized operator in '' @ quote @ s @ quote), drop 1 s)
            else Inr (p, drop 1 s)))"

text \<open>
  \<open>parseNodeFromString\<close> returns the node, the remainder and the error; the node is
  nil exactly when the error is not, so the first and the third are one sum. It calls
  itself on the remainder its first call returned: not returning is \<open>None\<close>.
\<close>

partial_function (option) parseNodeFromString :: "string \<Rightarrow> ((error + Node) \<times> string) option" where
  "parseNodeFromString s0 =
     (let s = TrimSpace s0 in
      case ratRx_FindStringIndex s of
        Some i \<Rightarrow>
          (case newRationalFromString (TrimSpace (take i s)) of
             Inl err \<Rightarrow> Some (Inl err, drop i s)
           | Inr v \<Rightarrow> Some (Inr (newValNode v), drop i s))
      | None \<Rightarrow>
          if s = [] then Some (Inl (Errorf ''empty string''), [])
          else
            (case parseOperator s of
               Inl (err, rest) \<Rightarrow> Some (Inl err, rest)
             | Inr (p, s') \<Rightarrow>
                 if s' = [] then Some (Inl (Errorf ''first operand missing''), s')
                 else
                   Option.bind (parseNodeFromString s') (\<lambda>(r1, s1).
                     case r1 of
                       Inl err \<Rightarrow> Some (Inl err, s1)
                     | Inr n1 \<Rightarrow>
                         if unary p then
                           (case newNode (Some n1) p None of
                              Inl err \<Rightarrow> Some (Inl err, s1)
                            | Inr n \<Rightarrow> Some (Inr n, s1))
                         else
                           Option.bind (parseNodeFromString s1) (\<lambda>(r2, s2).
                             case r2 of
                               Inl (Panic m) \<Rightarrow> Some (Inl (Panic m), s2)
                             | Inl (Errorf m) \<Rightarrow> Some (Inl (Errorf ''second operand missing''), s2)
                             | Inr n2 \<Rightarrow>
                                 (case newNode (Some n1) p (Some n2) of
                                    Inl err \<Rightarrow> Some (Inl err, s2)
                                  | Inr n \<Rightarrow> Some (Inr n, s2))))))"

definition FromPolish :: "string \<Rightarrow> (error + Node) option" where
  "FromPolish s0 =
     (let s = TrimSpace s0 in
      case parseNodeFromString s of
        None \<Rightarrow> None
      | Some (Inl (Errorf m), _) \<Rightarrow>
          Some (Inl (Errorf (''cannot parse '' @ quote @ s @ quote @ '': '' @ m)))
      | Some (Inl (Panic m), _) \<Rightarrow> Some (Inl (Panic m))
      | Some (Inr nd, _) \<Rightarrow> Some (Inr nd))"

section \<open>Structural equality\<close>

text \<open>
  The receiver of \<open>Equal\<close> is a pointer that may be nil: the method is entered all the
  same, and the receiver is dereferenced only after the argument was found not nil.
\<close>

lemma size_option_left [termination_simp]: "size_option size (left n) < Suc (size n)"
  by (cases n; cases "left n") simp_all

lemma size_option_right [termination_simp]: "size_option size (right n) < Suc (size n)"
  by (cases n; cases "right n") simp_all

fun Equal :: "Node option \<Rightarrow> Node option \<Rightarrow> error + bool" where
  "Equal n None = Inr False"
| "Equal None (Some n1) = Inl nil_dereference"
| "Equal (Some n) (Some n1) =
     (if op n \<noteq> op n1 then Inr False
      else if op n \<noteq> OpNull then
        (case Equal (left n) (left n1) of
           Inl err \<Rightarrow> Inl err
         | Inr False \<Rightarrow> Inr False
         | Inr True \<Rightarrow> if right n = None then Inr True else Equal (right n) (right n1))
      else Value_Equal (val n) (val n1))"

section \<open>Canonicalizer\<close>

text \<open>
  \<open>Simplify\<close>, \<open>transformDuo\<close> and \<open>transformTrio\<close> return a pointer, and \<open>Simplify\<close>
  compares such pointers with \<open>n\<close>, \<open>n.left\<close> and \<open>n.right\<close>. Each of the three returns
  either its receiver or a node that is not the receiver: one allocated by the call, or
  one returned by \<open>Simplify\<close> for a proper descendant, which is a descendant or newly
  allocated in turn. So the model returns the tree together with a flag that says
  whether the pointer differs from the receiver.

  The outcome of a call is \<open>None\<close> when it does not return, \<open>Some (Inl e)\<close> when it
  panics and \<open>Some (Inr x)\<close> when it returns \<open>x\<close>; \<open>andThen\<close> sequences two calls.
\<close>

definition andThen :: "(error + 'a) option \<Rightarrow> ('a \<Rightarrow> (error + 'b) option) \<Rightarrow> (error + 'b) option" where
  "andThen m f = Option.bind m (\<lambda>r. case r of Inl e \<Rightarrow> Some (Inl e) | Inr x \<Rightarrow> f x)"

text \<open>A method call \<open>p.Simplify()\<close> on a pointer that may be nil.\<close>

definition call :: "(Node \<Rightarrow> (error + Node \<times> bool) option) \<Rightarrow> Node option \<Rightarrow> (error + Node \<times> bool) option" where
  "call S p = (case p of None \<Rightarrow> Some (Inl nil_dereference) | Some x \<Rightarrow> S x)"

text \<open>
  The operand \<open>transformDuo\<close> takes from a child \<open>c\<close> for the wrapper \<open>p\<close>: the child's
  left child when the child's operator is \<open>p\<close> and that child is not nil, the child
  itself when \<open>p\<close> is \<open>OpNull\<close>, and none (the transformation leaves the node as it is)
  otherwise.
\<close>

definition operand :: "Node \<Rightarrow> Op \<Rightarrow> Node option" where
  "operand c p =
     (if op c = p \<and> left c \<noteq> None then left c
      else if p = OpNull then Some c
      else None)"

text \<open>
  The recursive method \<open>Simplify\<close> is the parameter \<open>S\<close> of \<open>transformDuo\<close> and
  \<open>transformTrio\<close>, which \<open>Simplify\<close> below passes itself.
\<close>

definition transformDuo ::
  "(Node \<Rightarrow> (error + Node \<times> bool) option) \<Rightarrow> Node \<Rightarrow> Op \<Rightarrow> Op \<Rightarrow> Op \<Rightarrow> Op \<Rightarrow> Op
     \<Rightarrow> (error + Node \<times> bool) option" where
  "transformDuo S n op1 op2 op3 op4 op5 =
     (if op n = op2 then
        (case left n of
           None \<Rightarrow> Some (Inl nil_dereference)
         | Some l \<Rightarrow>
             (case operand l op1 of
                None \<Rightarrow> Some (Inr (n, False))
              | Some x \<Rightarrow>
                  andThen (S x) (\<lambda>(a, _).
                    case right n of
                      None \<Rightarrow> Some (Inl nil_dereference)
                    | Some r \<Rightarrow>
                        (case operand r op3 of
                           None \<Rightarrow> Some (Inr (n, False))
                         | Some y \<Rightarrow>
                             andThen (S y) (\<lambda>(b, _).
                               if op4 \<noteq> OpNull then
                                 andThen (S (Node (Some a) (Some b) None op5)) (\<lambda>(n1, _).
                                   Some (Inr (Node (Some n1) None None op4, True)))
                               else Some (Inr (Node (Some a) (Some b) None op5, True)))))))
      else Some (Inr (n, False)))"

definition transformTrio ::
  "(Node \<Rightarrow> (error + Node \<times> bool) option) \<Rightarrow> Node \<Rightarrow> Op \<Rightarrow> Op \<Rightarrow> Op \<Rightarrow> Op
     \<Rightarrow> (error + Node \<times> bool) option" where
  "transformTrio S n op1 op2 op3 op4 =
     (if op n = op1 then
        (case right n of
           None \<Rightarrow> Some (Inl nil_dereference)
         | Some r \<Rightarrow>
             if op r = op2 then
               andThen (call S (left n)) (\<lambda>(a, _).
                 andThen (call S (left r)) (\<lambda>(b, _).
                   andThen (S (Node (Some a) (Some b) None op3)) (\<lambda>(n1, _).
                     andThen (call S (right r)) (\<lambda>(c, _).
                       Some (Inr (Node (Some n1) (Some c) None op4, True))))))
             else Some (Inr (n, False)))
      else Some (Inr (n, False)))"

text \<open>The two rule tables of \<open>Simplify\<close>, in the order of the source.\<close>

definition duoTable :: "(Op \<times> Op \<times> Op \<times> Op \<times> Op) list" where
  "duoTable =
     [(OpNull, OpAdd, OpMinus, OpNull, OpSub),
      (OpNull, OpAdd, OpMinus, OpNull, OpSub),
      (OpNull, OpSub, OpMinus, OpNull, OpAdd),
      (OpMinus, OpSub, OpNull, OpMinus, OpAdd),
      (OpMinus, OpAdd, OpNull, OpMinus, OpSub),
      (OpMinus, OpMul, OpMinus, OpNull, OpMul),
      (OpMinus, OpDiv, OpMinus, OpNull, OpDiv),
      (OpMinus, OpMul, OpNull, OpMinus, OpMul),
      (OpMinus, OpDiv, OpNull, OpMinus, OpDiv),
      (OpNull, OpMul, OpMinus, OpMinus, OpMul),
      (OpNull, OpDiv, OpMinus, OpMinus, OpDiv),
      (OpSqrt, OpMul, OpSqrt, OpSqrt, OpMul),
      (OpSqrt, OpDiv, OpSqrt, OpSqrt, OpDiv)]"

definition trioTable :: "(Op \<times> Op \<times> Op \<times> Op) list" where
  "trioTable =
     [(OpAdd, OpAdd, OpAdd, OpAdd),
      (OpSub, OpSub, OpSub, OpAdd),
      (OpMul, OpMul, OpMul, OpMul),
      (OpDiv, OpDiv, OpDiv, OpMul)]"

text \<open>
  The two \<open>for\<close> loops: \<open>n1 = n1.transformDuo(...)\<close> for each row of the table in turn.
  The flag says whether \<open>n1\<close> is still the pointer \<open>n\<close> the loop started from.
\<close>

fun duoLoop ::
  "(Node \<Rightarrow> (error + Node \<times> bool) option) \<Rightarrow> (Op \<times> Op \<times> Op \<times> Op \<times> Op) list \<Rightarrow> Node \<times> bool
     \<Rightarrow> (error + Node \<times> bool) option" where
  "duoLoop S [] st = Some (Inr st)"
| "duoLoop S ((op1, op2, op3, op4, op5) # ts) (n1, ch) =
     andThen (transformDuo S n1 op1 op2 op3 op4 op5) (\<lambda>(n2, c). duoLoop S ts (n2, ch \<or> c))"

fun trioLoop ::
  "(Node \<Rightarrow> (error + Node \<times> bool) option) \<Rightarrow> (Op \<times> Op \<times> Op \<times> Op) list \<Rightarrow> Node \<times> bool
     \<Rightarrow> (error + Node \<times> bool) option" where
  "trioLoop S [] st = Some (Inr st)"
| "trioLoop S ((op1, op2, op3, op4) # ts) (n1, ch) =
     andThen (transformTrio S n1 op1 op2 op3 op4) (\<lambda>(n2, c). trioLoop S ts (n2, ch \<or> c))"

text \<open>
  The test \<open>n.left.op == OpMinus\<close>, which panics on a nil \<open>n.left\<close>, and the recursion
  into one child of the last branch of \<open>Simplify\<close>: a nil child stays nil.
\<close>

definition left_op_is :: "Node \<Rightarrow> Op \<Rightarrow> error + bool" where
  "left_op_is n p = (case left n of None \<Rightarrow> Inl nil_dereference | Some l \<Rightarrow> Inr (op l = p))"

definition child ::
  "(Node \<Rightarrow> (error + Node \<times> bool) option) \<Rightarrow> Node option \<Rightarrow> (error + Node option \<times> bool) option" where
  "child S p =
     (case p of
        None \<Rightarrow> Some (Inr (None, False))
      | Some x \<Rightarrow> andThen (S x) (\<lambda>(x', c). Some (Inr (Some x', c))))"

lemma andThen_mono [partial_function_mono]:
  assumes "mono_option B" and "\<And>y. mono_option (\<lambda>f. C y f)"
  shows "mono_option (\<lambda>f. andThen (B f) (\<lambda>y. C y f))"
  unfolding andThen_def
  apply (rule bind_mono [OF assms(1)])
  subgoal for r by (cases r) (simp_all add: assms(2) option.const_mono)
  done

lemma call_S_mono [partial_function_mono]:
  assumes "\<And>x. mono_option (\<lambda>f. S f x)"
  shows "mono_option (\<lambda>f. call (S f) p)"
  unfolding call_def by (cases p) (simp_all add: assms option.const_mono)

lemma child_mono [partial_function_mono]:
  assumes "\<And>x. mono_option (\<lambda>f. S f x)"
  shows "mono_option (\<lambda>f. child (S f) p)"
  unfolding child_def by (cases p) (auto intro!: partial_function_mono assms)

lemma transformDuo_mono [partial_function_mono]:
  assumes "\<And>x. mono_option (\<lambda>f. S f x)"
  shows "mono_option (\<lambda>f. transformDuo (S f) n op1 op2 op3 op4 op5)"
  unfolding transformDuo_def
  by (cases "left n"; cases "right n"; cases "operand (the (left n)) op1";
      cases "operand (the (right n)) op3")
     (auto intro!: partial_function_mono assms)

lemma transformTrio_mono [partial_function_mono]:
  assumes "\<And>x. mono_option (\<lambda>f. S f x)"
  shows "mono_option (\<lambda>f. transformTrio (S f) n op1 op2 op3 op4)"
  unfolding transformTrio_def
  by (cases "right n") (auto intro!: partial_function_mono assms)

lemma duoLoop_mono [partial_function_mono]:
  assumes "\<And>x. mono_option (\<lambda>f. S f x)"
  shows "mono_option (\<lambda>f. duoLoop (S f) ts st)"
proof (induction ts arbitrary: st)
  case Nil
  show ?case by (simp add: option.const_mono)
next
  case (Cons t ts)
  obtain op1 op2 op3 op4 op5 where t: "t = (op1, op2, op3, op4, op5)"
    by (cases t) auto
  obtain n1 ch where st: "st = (n1, ch)"
    by (cases st) auto
  show ?case
    unfolding t st duoLoop.simps
    by (rule andThen_mono) (auto intro!: transformDuo_mono assms Cons.IH)
qed

lemma trioLoop_mono [partial_function_mono]:
  assumes "\<And>x. mono_option (\<lambda>f. S f x)"
  shows "mono_option (\<lambda>f. trioLoop (S f) ts st)"
proof (induction ts arbitrary: st)
  case Nil
  show ?case by (simp add: option.const_mono)
next
  case (Cons t ts)
  obtain op1 op2 op3 op4 where t: "t = (op1, op2, op3, op4)"
    by (cases t) auto
  obtain n1 ch where st: "st = (n1, ch)"
    by (cases st) auto
  show ?case
    unfolding t st trioLoop.simps
    by (rule andThen_mono) (auto intro!: transformTrio_mono assms Cons.IH)
qed

text \<open>
  \<open>Simplify\<close>. The first \<open>andThen\<close> computes \<open>n1\<close> and whether it differs from \<open>n\<close>, the
  second is the final \<open>if n1 != nil && n1 != n\<close> (a returned \<open>n1\<close> is never nil).
\<close>

partial_function (option) Simplify :: "Node \<Rightarrow> (error + Node \<times> bool) option" where
  "Simplify n =
     andThen
       (case (if op n = OpMinus then left_op_is n OpMinus else Inr False) of
          Inl err \<Rightarrow> Some (Inl err)
        | Inr double_minus \<Rightarrow>
            if double_minus then
              andThen (call Simplify (Option.bind (left n) left)) (\<lambda>(n1, _). Some (Inr (n1, True)))
            else
              (case (if op n = OpPow then left_op_is n OpMinus else Inr False) of
                 Inl err \<Rightarrow> Some (Inl err)
               | Inr power_of_minus \<Rightarrow>
                   if power_of_minus then
                     (case right n of
                        None \<Rightarrow> Some (Inl nil_dereference)
                      | Some r \<Rightarrow>
                          (case Eval r of
                             Inl (Panic m) \<Rightarrow> Some (Inl (Panic m))
                           | Inl (Errorf m) \<Rightarrow> Some (Inr (n, False))
                           | Inr e \<Rightarrow>
                               (case Even e of
                                  Inl err \<Rightarrow> Some (Inl err)
                                | Inr is_even \<Rightarrow>
                                    if is_even then
                                      andThen (call Simplify (Option.bind (left n) left)) (\<lambda>(a, _).
                                        andThen (Simplify r) (\<lambda>(b, _).
                                          Some (Inr (Node (Some a) (Some b) None OpPow, True))))
                                    else Some (Inr (n, False)))))
                   else
                     andThen (duoLoop Simplify duoTable (n, False)) (\<lambda>st.
                       andThen (trioLoop Simplify trioTable st) (\<lambda>(n1, ch).
                         if ch then Some (Inr (n1, True))
                         else
                           andThen (child Simplify (left n)) (\<lambda>(l, cl).
                             andThen (child Simplify (right n)) (\<lambda>(r, cr).
                               if cl \<or> cr then Some (Inr (Node l r (val n) (op n), True))
                               else Some (Inr (n, False))))))))
       (\<lambda>(n1, ch).
          if ch then andThen (Simplify n1) (\<lambda>(r, _). Some (Inr (r, True)))
          else Some (Inr (n, False)))"

section \<open>Evaluating the model on concrete inputs\<close>

lemma andThen_cong_weak: "m = m' \<Longrightarrow> andThen m f = andThen m' f"
  by simp

lemma andThen_simps:
  "andThen (Some (Inr x)) f = f x"
  "andThen (Some (Inl e)) f = Some (Inl e)"
  "andThen None f = None"
  by (simp_all add: andThen_def)

lemmas parse_defs =
  FromPolish_def TrimSpace_def isSpace_def ratRx_FindStringIndex_def isRxSpace_def
  HasPrefix_def isDigit_def parseOperator_def opKeys_def newRationalFromString_def Let_def
  nat_of_digits_def digit_val_def newValNode_def unary_def newNode_def valid_def quote_def
  newIntNode_def

lemmas eval_defs =
  Eval.simps valid_def binary_def unary_def PerformBinary_def PerformUnary_def
  rational_PerformBinary_def rational_PerformUnary_def newIntNode_def

lemmas simplify_defs =
  andThen_simps call_def operand_def transformDuo_def transformTrio_def duoTable_def
  trioTable_def left_op_is_def child_def Even_def rational_Even_def is_integer_def eval_defs

section \<open>Parse errors\<close>

lemma last_dropWhile_ne: "dropWhile P xs \<noteq> [] \<Longrightarrow> last (dropWhile P xs) = last xs"
  by (induction xs) auto

lemma TrimSpace_idem: "TrimSpace (TrimSpace s) = TrimSpace s"
proof -
  define u where "u = dropWhile isSpace s"
  define w where "w = dropWhile isSpace (rev u)"
  have t: "TrimSpace s = rev w"
    by (simp add: TrimSpace_def u_def w_def)
  have hw: "w = [] \<or> \<not> isSpace (hd w)"
    unfolding w_def by (metis hd_dropWhile)
  have hu: "u = [] \<or> \<not> isSpace (hd u)"
    unfolding u_def by (metis hd_dropWhile)
  have lw: "w = [] \<or> \<not> isSpace (last w)"
  proof (cases "w = []")
    case False
    then have "last w = last (rev u)"
      unfolding w_def by (rule last_dropWhile_ne)
    moreover from False have "u \<noteq> []"
      unfolding w_def by auto
    ultimately show ?thesis
      using hu by (simp add: last_rev)
  qed simp
  have "dropWhile isSpace (rev w) = rev w"
    using lw by (cases "w = []") (simp_all add: dropWhile_eq_self_iff hd_rev)
  moreover have "dropWhile isSpace w = w"
    using hw by (simp add: dropWhile_eq_self_iff)
  ultimately show ?thesis
    by (simp add: t) (simp add: TrimSpace_def)
qed

text \<open>
  C8. Parsing the empty string fails; parsing \<open>+ 3\<close> fails with a message that contains
  \<open>second operand missing\<close>; parsing \<open>@ 1 2\<close> fails with a message that contains
  \<open>unrecognized operator\<close>. The three messages are given in full.
\<close>

theorem C8_parse_error_surfaces:
  "FromPolish [] = Some (Inl (Errorf (''cannot parse '' @ quote @ quote @ '': empty string'')))
   \<and> FromPolish ''+ 3'' =
       Some (Inl (Errorf (''cannot parse '' @ quote @ ''+ 3'' @ quote @ '': second operand missing'')))
   \<and> FromPolish ''@ 1 2'' =
       Some (Inl (Errorf (''cannot parse '' @ quote @ ''@ 1 2'' @ quote
                          @ '': unrecognized operator in '' @ quote @ ''@ 1 2'' @ quote)))"
  by (simp add: parseNodeFromString.simps parse_defs)

text \<open>
  C10. When the text that is left after the operator token is empty, the parser fails
  with \<open>first operand missing\<close>, not with the error of an empty input; \<open>FromPolish\<close>
  wraps that message. The operator token is read from the trimmed input, which does not
  start a rational constant.
\<close>

theorem C10_first_operand_missing:
  assumes "ratRx_FindStringIndex (TrimSpace s) = None"
    and "parseOperator (TrimSpace s) = Inr (p, [])"
  shows "parseNodeFromString s = Some (Inl (Errorf ''first operand missing''), [])
         \<and> FromPolish s =
             Some (Inl (Errorf (''cannot parse '' @ quote @ TrimSpace s @ quote
                                @ '': first operand missing'')))"
proof -
  have ne: "TrimSpace s \<noteq> []"
    using assms(2) by (auto simp: parseOperator_def HasPrefix_def opKeys_def Let_def)
  have p: "parseNodeFromString s' = Some (Inl (Errorf ''first operand missing''), [])"
    if "TrimSpace s' = TrimSpace s" for s'
    by (subst parseNodeFromString.simps) (simp add: that assms ne Let_def)
  show ?thesis
    by (simp add: p FromPolish_def TrimSpace_idem Let_def)
qed

theorem C10_first_operand_missing_witness:
  "FromPolish ''+'' =
     Some (Inl (Errorf (''cannot parse '' @ quote @ ''+'' @ quote @ '': first operand missing'')))
   \<and> FromPolish ''sqrt'' =
     Some (Inl (Errorf (''cannot parse '' @ quote @ ''sqrt'' @ quote @ '': first operand missing'')))
   \<and> parseNodeFromString '' -- '' = Some (Inl (Errorf ''first operand missing''), [])"
  using C10_first_operand_missing [of "''+''" OpAdd]
    C10_first_operand_missing [of "''sqrt''" OpSqrt]
    C10_first_operand_missing [of "'' -- ''" OpMinus]
  by (simp add: parse_defs)

section \<open>Evaluation order and failures\<close>



section \<open>The re-association of a subtraction\<close>

text \<open>
  C2, as the code has it. The second row of the table of \<open>transformTrio\<close> is
  \<open>(OpSub, OpSub, OpSub, OpAdd)\<close>: it rewrites \<open>a - (b - c)\<close> to \<open>(a - b) + c\<close>, with
  \<open>OpSub\<close> as the new inner operator and \<open>OpAdd\<close> as the new outer one. The canonical
  form of \<open>- 5 - 3 1\<close> is the tree of \<open>+ - 5 3 1\<close>, and both evaluate to 3.
\<close>

theorem C2_reassociate_sub:
  "trioTable ! 1 = (OpSub, OpSub, OpSub, OpAdd)
   \<and> transformTrio S (Node (Some a) (Some (Node (Some b) (Some c) w OpSub)) v OpSub)
         OpSub OpSub OpSub OpAdd =
       andThen (S a) (\<lambda>(a', _).
         andThen (S b) (\<lambda>(b', _).
           andThen (S (Node (Some a') (Some b') None OpSub)) (\<lambda>(n1, _).
             andThen (S c) (\<lambda>(c', _).
               Some (Inr (Node (Some n1) (Some c') None OpAdd, True))))))
   \<and> FromPolish ''- 5 - 3 1'' =
       Some (Inr (Node (Some (newIntNode 5))
                    (Some (Node (Some (newIntNode 3)) (Some (newIntNode 1)) None OpSub)) None OpSub))
   \<and> FromPolish ''+ - 5 3 1'' =
       Some (Inr (Node (Some (Node (Some (newIntNode 5)) (Some (newIntNode 3)) None OpSub))
                    (Some (newIntNode 1)) None OpAdd))
   \<and> Simplify (Node (Some (newIntNode 5))
                 (Some (Node (Some (newIntNode 3)) (Some (newIntNode 1)) None OpSub)) None OpSub) =
       Some (Inr (Node (Some (Node (Some (newIntNode 5)) (Some (newIntNode 3)) None OpSub))
                    (Some (newIntNode 1)) None OpAdd, True))
   \<and> Eval (Node (Some (newIntNode 5))
              (Some (Node (Some (newIntNode 3)) (Some (newIntNode 1)) None OpSub)) None OpSub)
       = Inr (Some 3)
   \<and> Eval (Node (Some (Node (Some (newIntNode 5)) (Some (newIntNode 3)) None OpSub))
              (Some (newIntNode 1)) None OpAdd) = Inr (Some 3)"
proof -
  have "trioTable ! 1 = (OpSub, OpSub, OpSub, OpAdd)"
    by (simp add: trioTable_def)
  moreover have "transformTrio S (Node (Some a) (Some (Node (Some b) (Some c) w OpSub)) v OpSub)
         OpSub OpSub OpSub OpAdd =
       andThen (S a) (\<lambda>(a', _).
         andThen (S b) (\<lambda>(b', _).
           andThen (S (Node (Some a') (Some b') None OpSub)) (\<lambda>(n1, _).
             andThen (S c) (\<lambda>(c', _).
               Some (Inr (Node (Some n1) (Some c') None OpAdd, True))))))"
    by (simp add: transformTrio_def call_def)
  moreover have "FromPolish ''- 5 - 3 1'' =
       Some (Inr (Node (Some (newIntNode 5))
                    (Some (Node (Some (newIntNode 3)) (Some (newIntNode 1)) None OpSub)) None OpSub))"
    by (simp add: parseNodeFromString.simps parse_defs)
  moreover have "FromPolish ''+ - 5 3 1'' =
       Some (Inr (Node (Some (Node (Some (newIntNode 5)) (Some (newIntNode 3)) None OpSub))
                    (Some (newIntNode 1)) None OpAdd))"
    by (simp add: parseNodeFromString.simps parse_defs)
  moreover have "Simplify (Node (Some (newIntNode 5))
                 (Some (Node (Some (newIntNode 3)) (Some (newIntNode 1)) None OpSub)) None OpSub) =
       Some (Inr (Node (Some (Node (Some (newIntNode 5)) (Some (newIntNode 3)) None OpSub))
                    (Some (newIntNode 1)) None OpAdd, True))"
    by (simp add: Simplify.simps simplify_defs cong: andThen_cong_weak)
  moreover have "Eval (Node (Some (newIntNode 5))
              (Some (Node (Some (newIntNode 3)) (Some (newIntNode 1)) None OpSub)) None OpSub)
       = Inr (Some 3)"
    by (simp add: eval_defs)
  moreover have "Eval (Node (Some (Node (Some (newIntNode 5)) (Some (newIntNode 3)) None OpSub))
              (Some (newIntNode 1)) None OpAdd) = Inr (Some 3)"
    by (simp add: eval_defs)
  ultimately show ?thesis
    by blast
qed

text \<open>
  The claim as the specification states it fails on its own example: the canonical form
  of \<open>- 5 - 3 1\<close> is not structurally equal to the tree of \<open>- + 5 3 1\<close>, and that tree
  evaluates to 7, not to 3.
\<close>

theorem C2_reassociate_sub_counterexample:
  "FromPolish ''- + 5 3 1'' =
     Some (Inr (Node (Some (Node (Some (newIntNode 5)) (Some (newIntNode 3)) None OpAdd))
                  (Some (newIntNode 1)) None OpSub))
   \<and> Simplify (Node (Some (newIntNode 5))
                 (Some (Node (Some (newIntNode 3)) (Some (newIntNode 1)) None OpSub)) None OpSub) =
       Some (Inr (Node (Some (Node (Some (newIntNode 5)) (Some (newIntNode 3)) None OpSub))
                    (Some (newIntNode 1)) None OpAdd, True))
   \<and> Equal (Some (Node (Some (Node (Some (newIntNode 5)) (Some (newIntNode 3)) None OpSub))
                    (Some (newIntNode 1)) None OpAdd))
           (Some (Node (Some (Node (Some (newIntNode 5)) (Some (newIntNode 3)) None OpAdd))
                    (Some (newIntNode 1)) None OpSub)) = Inr False
   \<and> Eval (Node (Some (Node (Some (newIntNode 5)) (Some (newIntNode 3)) None OpAdd))
              (Some (newIntNode 1)) None OpSub) = Inr (Some 7)"
proof -
  have "FromPolish ''- + 5 3 1'' =
     Some (Inr (Node (Some (Node (Some (newIntNode 5)) (Some (newIntNode 3)) None OpAdd))
                  (Some (newIntNode 1)) None OpSub))"
    by (simp add: parseNodeFromString.simps parse_defs)
  moreover have "Simplify (Node (Some (newIntNode 5))
                 (Some (Node (Some (newIntNode 3)) (Some (newIntNode 1)) None OpSub)) None OpSub) =
       Some (Inr (Node (Some (Node (Some (newIntNode 5)) (Some (newIntNode 3)) None OpSub))
                    (Some (newIntNode 1)) None OpAdd, True))"
    by (simp add: Simplify.simps simplify_defs cong: andThen_cong_weak)
  moreover have "Equal (Some (Node (Some (Node (Some (newIntNode 5)) (Some (newIntNode 3)) None OpSub))
                    (Some (newIntNode 1)) None OpAdd))
           (Some (Node (Some (Node (Some (newIntNode 5)) (Some (newIntNode 3)) None OpAdd))
                    (Some (newIntNode 1)) None OpSub)) = Inr False"
    by simp
  moreover have "Eval (Node (Some (Node (Some (newIntNode 5)) (Some (newIntNode 3)) None OpAdd))
              (Some (newIntNode 1)) None OpSub) = Inr (Some 7)"
    by (simp add: eval_defs)
  ultimately show ?thesis
    by blast
qed

section \<open>Arithmetic of the rational model\<close>

text \<open>
  The exact root of a rational: \<open>rational_root r\<close> is the non-negative rational whose
  square is \<open>r\<close>, integral or not, when there is one. It is not an operation of the
  program; the values of the formulas are compared under it below.
\<close>

definition rational_root :: "rational \<Rightarrow> rational option" where
  "rational_root r =
     (case quotient_of r of (p, q) \<Rightarrow>
        if p < 0 then None
        else (case nat_sqrt (nat p) of
                None \<Rightarrow> None
              | Some a \<Rightarrow> (case nat_sqrt (nat q) of
                            None \<Rightarrow> None
                          | Some b \<Rightarrow> Some (of_nat a / of_nat b))))"

lemma nat_sqrt_square: "nat_sqrt (k * k) = Some k"
proof -
  have "k < Suc (k * k)" by (cases k) auto
  moreover have "\<forall>j<k. [0..<Suc (k * k)] ! j * ([0..<Suc (k * k)] ! j) \<noteq> k * k"
  proof (intro allI impI)
    fix j assume "j < k"
    then have "j * j < k * k" by (simp add: mult_strict_mono')
    moreover have "j < Suc (k * k)" using \<open>j < k\<close> \<open>k < Suc (k * k)\<close> by simp
    ultimately show "[0..<Suc (k * k)] ! j * ([0..<Suc (k * k)] ! j) \<noteq> k * k"
      by (simp add: nth_upt del: upt_Suc)
  qed
  ultimately show ?thesis
    unfolding nat_sqrt_def find_Some_iff
    by (intro exI [of _ k]) (simp add: nth_upt del: upt_Suc)
qed

lemma nat_sqrt_Some: "nat_sqrt n = Some a \<Longrightarrow> a * a = n"
  unfolding nat_sqrt_def find_Some_iff by auto

lemma rational_root_Some:
  assumes "rational_root r = Some q"
  shows "0 \<le> q \<and> q * q = r"
proof -
  obtain p d where pd: "quotient_of r = (p, d)" by (cases "quotient_of r") auto
  from assms pd obtain a b where p0: "0 \<le> p" and a: "nat_sqrt (nat p) = Some a"
    and b: "nat_sqrt (nat d) = Some b" and q: "q = of_nat a / of_nat b"
    by (auto simp: rational_root_def split: if_splits option.splits)
  have d0: "0 < d" using pd by (rule quotient_of_denom_pos)
  have aa: "int (a * a) = p" using nat_sqrt_Some [OF a] p0 by simp
  have bb: "int (b * b) = d" using nat_sqrt_Some [OF b] d0 by simp
  have r: "r = of_int p / of_int d" using pd by (rule quotient_of_div)
  have "q * q = of_int (int (a * a)) / of_int (int (b * b))"
    unfolding q by simp
  then have "q * q = r" unfolding aa bb r .
  moreover have "0 \<le> q" unfolding q by simp
  ultimately show ?thesis by simp
qed

lemma quotient_of_square:
  assumes "quotient_of q = (m, k)"
  shows "quotient_of (q * q) = (m * m, k * k)"
proof -
  have k0: "0 < k" using assms by (rule quotient_of_denom_pos)
  have cop: "coprime m k" using assms by (rule quotient_of_coprime)
  have q: "q = Fract m k" using assms by (simp add: quotient_of_inject_eq [symmetric] quotient_of_Fract normalize_stable k0 cop)
  have "q * q = Fract (m * m) (k * k)" unfolding q by simp
  moreover have "coprime (m * m) (k * k)" using cop by simp
  moreover have "0 < k * k" using k0 by simp
  ultimately show ?thesis
    by (simp add: quotient_of_Fract normalize_stable)
qed

lemma rational_root_square:
  assumes "0 \<le> q"
  shows "rational_root (q * q) = Some q"
proof -
  obtain m k where mk: "quotient_of q = (m, k)" by (cases "quotient_of q") auto
  have k0: "0 < k" using mk by (rule quotient_of_denom_pos)
  have q: "q = of_int m / of_int k" using mk by (rule quotient_of_div)
  have m0: "0 \<le> m"
    using assms k0 unfolding q by (simp add: zero_le_divide_iff)
  have nm: "nat (m * m) = nat m * nat m" using m0 by (simp add: nat_mult_distrib)
  have nk: "nat (k * k) = nat k * nat k" using k0 by (simp add: nat_mult_distrib)
  have "of_nat (nat m) / of_nat (nat k) = q"
    unfolding q using m0 k0 by simp
  then show ?thesis
    using m0 by (simp add: rational_root_def quotient_of_square [OF mk] nm nk nat_sqrt_square
        zero_le_mult_iff)
qed

lemma rational_pow_minus:
  assumes "rational_Even e"
  shows "rational_pow (- x) e = rational_pow x e"
proof -
  have ev: "even (fst (quotient_of e))" and int: "is_integer e"
    using assms by (auto simp: rational_Even_def)
  show ?thesis
  proof (cases "0 \<le> fst (quotient_of e)")
    case True
    then have "even (nat (fst (quotient_of e)))" using ev by (simp add: even_nat_iff)
    then show ?thesis using True int by (simp add: rational_pow_def)
  next
    case False
    then have "even (nat (- fst (quotient_of e)))" using ev by (simp add: even_nat_iff)
    then have "(1 / (- x)) ^ nat (- fst (quotient_of e)) = (1 / x) ^ nat (- fst (quotient_of e))"
      by (metis divide_minus_right power_minus_even)
    then show ?thesis using False int by (simp add: rational_pow_def)
  qed
qed

lemma rational_root_mult:
  assumes "rational_root x = Some sx" "rational_root y = Some sy"
  shows "rational_root (x * y) = Some (sx * sy)"
proof -
  from assms have "0 \<le> sx" "sx * sx = x" "0 \<le> sy" "sy * sy = y"
    by (auto dest: rational_root_Some)
  then have "x * y = (sx * sy) * (sx * sy)" and "0 \<le> sx * sy"
    by (auto simp: algebra_simps)
  then show ?thesis
    by (simp add: rational_root_square)
qed

lemma rational_root_divide:
  assumes "rational_root x = Some sx" "rational_root y = Some sy"
  shows "rational_root (x / y) = Some (sx / sy)"
proof -
  from assms have h: "0 \<le> sx" "sx * sx = x" "0 \<le> sy" "sy * sy = y"
    by (auto dest: rational_root_Some)
  then have e: "x / y = (sx / sy) * (sx / sy)" and nn: "0 \<le> sx / sy"
    by auto
  show ?thesis
    unfolding e using nn by (rule rational_root_square)
qed

lemma rational_sqrt_root:
  assumes "rational_sqrt x = Some s"
  shows "rational_root x = Some s"
proof -
  from assms obtain a where x0: "\<not> x < 0" and i: "is_integer x"
    and a: "nat_sqrt (nat (fst (quotient_of x))) = Some a" and s: "s = of_nat a"
    by (auto simp: rational_sqrt_def split: if_splits)
  obtain p d where pd: "quotient_of x = (p, d)" by (cases "quotient_of x") auto
  have d: "d = 1" using i pd by (simp add: is_integer_def)
  have x: "x = of_int p" using quotient_of_div [OF pd] d by simp
  have p0: "0 \<le> p" using x0 x by simp
  have "int (a * a) = p" using nat_sqrt_Some [OF a] p0 pd by simp
  then have "x = s * s" unfolding x s by (metis of_int_of_nat_eq of_nat_mult)
  moreover have "0 \<le> s" unfolding s by simp
  ultimately show ?thesis
    by (simp add: rational_root_square)
qed


section \<open>Soundness of the rewrite rules on values\<close>

text \<open>
  The rules are compared on the values that the formulas have under a root function
  \<open>rt\<close> in the place of \<open>rational_sqrt\<close>: \<open>PerformUnary_with rt\<close> and \<open>Eval_with rt\<close> are
  \<open>PerformUnary\<close> and \<open>Eval\<close> with \<open>rt\<close> for the square root, and they are the two
  functions of the program when \<open>rt\<close> is \<open>rational_sqrt\<close>. Two other root functions
  serve below: \<open>rational_root\<close>, and the root that is defined nowhere. A root function
  is admissible when it is a restriction of \<open>rational_root\<close> whose domain is closed under
  products and under quotients by a number with a non-zero root.
\<close>

definition PerformUnary_with :: "(rational \<Rightarrow> rational option) \<Rightarrow> Value \<Rightarrow> Op \<Rightarrow> error + Value" where
  "PerformUnary_with rt v p =
     (case v of
        None \<Rightarrow> Inl nil_dereference
      | Some r \<Rightarrow>
          if p = OpSqrt then
            (case rt r of None \<Rightarrow> Inl (root_error r) | Some q \<Rightarrow> Inr (Some q))
          else rational_PerformUnary r p)"

fun Eval_with :: "(rational \<Rightarrow> rational option) \<Rightarrow> Node \<Rightarrow> error + Value" where
  "Eval_with rt n =
     (if \<not> valid n then Inl (Errorf ''invalid formula '')
      else if op n = OpNull then Inr (val n)
      else if binary (op n) then
        (case left n of
           None \<Rightarrow> Inl nil_dereference
         | Some l \<Rightarrow>
             (case Eval_with rt l of
                Inl err \<Rightarrow> Inl err
              | Inr lv \<Rightarrow>
                  (case right n of
                     None \<Rightarrow> Inl nil_dereference
                   | Some r \<Rightarrow>
                       (case Eval_with rt r of
                          Inl err \<Rightarrow> Inl err
                        | Inr rv \<Rightarrow> PerformBinary lv (op n) rv))))
      else
        (case left n of
           None \<Rightarrow> Inl nil_dereference
         | Some l \<Rightarrow>
             (case Eval_with rt l of
                Inl err \<Rightarrow> Inl err
              | Inr lv \<Rightarrow> PerformUnary_with rt lv (op n))))"

declare Eval_with.simps [simp del]

definition admissible :: "(rational \<Rightarrow> rational option) \<Rightarrow> bool" where
  "admissible rt =
     ((\<forall>x s. rt x = Some s \<longrightarrow> rational_root x = Some s)
      \<and> (\<forall>x y sx sy. rt x = Some sx \<and> rt y = Some sy \<longrightarrow> rt (x * y) = Some (sx * sy))
      \<and> (\<forall>x y sx sy. rt x = Some sx \<and> rt y = Some sy \<and> sy \<noteq> 0 \<longrightarrow>
            rt (x / y) = Some (sx / sy)))"

text \<open>
  A wrapper of \<open>transformDuo\<close> is \<open>OpNull\<close> (no wrapper) or a unary operator. A row of
  its table is sound when the value of \<open>(op1 a) op2 (op3 b)\<close>, where it exists, is the
  value of \<open>op4 (a op5 b)\<close>; a row of the table of \<open>transformTrio\<close> is sound when the
  value of \<open>a op1 (b op2 c)\<close>, where it exists, is the value of \<open>(a op3 b) op4 c\<close>.
\<close>

definition apply_wrapper :: "(rational \<Rightarrow> rational option) \<Rightarrow> Op \<Rightarrow> Value \<Rightarrow> error + Value" where
  "apply_wrapper rt p v = (if p = OpNull then Inr v else PerformUnary_with rt v p)"

definition duo_shape :: "Op \<times> Op \<times> Op \<times> Op \<times> Op \<Rightarrow> bool" where
  "duo_shape t =
     (case t of (op1, op2, op3, op4, op5) \<Rightarrow>
        binary op2 \<and> binary op5 \<and> (op1 = OpNull \<or> unary op1) \<and> (op3 = OpNull \<or> unary op3)
        \<and> (op4 = OpNull \<or> unary op4) \<and> (op1 \<noteq> OpNull \<or> op3 \<noteq> OpNull))"

definition duo_sound :: "(rational \<Rightarrow> rational option) \<Rightarrow> Op \<times> Op \<times> Op \<times> Op \<times> Op \<Rightarrow> bool" where
  "duo_sound rt t =
     (case t of (op1, op2, op3, op4, op5) \<Rightarrow>
        (\<forall>a b la rb v.
           apply_wrapper rt op1 a = Inr la \<and> apply_wrapper rt op3 b = Inr rb
           \<and> PerformBinary la op2 rb = Inr v \<longrightarrow>
           (\<exists>m. PerformBinary a op5 b = Inr m \<and> apply_wrapper rt op4 m = Inr v)))"

definition trio_shape :: "Op \<times> Op \<times> Op \<times> Op \<Rightarrow> bool" where
  "trio_shape t =
     (case t of (op1, op2, op3, op4) \<Rightarrow> binary op1 \<and> binary op2 \<and> binary op3 \<and> binary op4)"

definition trio_sound :: "Op \<times> Op \<times> Op \<times> Op \<Rightarrow> bool" where
  "trio_sound t =
     (case t of (op1, op2, op3, op4) \<Rightarrow>
        (\<forall>a b c bc v.
           PerformBinary b op2 c = Inr bc \<and> PerformBinary a op1 bc = Inr v \<longrightarrow>
           (\<exists>ab. PerformBinary a op3 b = Inr ab \<and> PerformBinary ab op4 c = Inr v)))"

lemmas value_defs =
  apply_wrapper_def PerformBinary_def PerformUnary_with_def rational_PerformBinary_def
  rational_PerformUnary_def

lemma admissible_root: "admissible rational_root"
  unfolding admissible_def by (auto intro: rational_root_mult rational_root_divide)


lemma admissible_sub: "admissible rt \<Longrightarrow> rt x = Some s \<Longrightarrow> rational_root x = Some s"
  unfolding admissible_def by blast

lemma duoTable_shape: "list_all duo_shape duoTable"
  by (simp add: duoTable_def duo_shape_def binary_def unary_def)

lemma trioTable_shape: "list_all trio_shape trioTable"
  by (simp add: trioTable_def trio_shape_def binary_def)

lemma duo_sound_plain:
  "duo_sound rt (OpNull, OpAdd, OpMinus, OpNull, OpSub)"
  "duo_sound rt (OpNull, OpSub, OpMinus, OpNull, OpAdd)"
  "duo_sound rt (OpMinus, OpSub, OpNull, OpMinus, OpAdd)"
  "duo_sound rt (OpMinus, OpAdd, OpNull, OpMinus, OpSub)"
  "duo_sound rt (OpMinus, OpMul, OpMinus, OpNull, OpMul)"
  "duo_sound rt (OpMinus, OpMul, OpNull, OpMinus, OpMul)"
  "duo_sound rt (OpNull, OpMul, OpMinus, OpMinus, OpMul)"
  by (auto simp: duo_sound_def value_defs split: option.splits)

lemma duo_sound_div:
  "duo_sound rt (OpMinus, OpDiv, OpMinus, OpNull, OpDiv)"
  "duo_sound rt (OpMinus, OpDiv, OpNull, OpMinus, OpDiv)"
  "duo_sound rt (OpNull, OpDiv, OpMinus, OpMinus, OpDiv)"
  by (auto simp: duo_sound_def value_defs split: option.splits if_splits)

lemma duo_sound_sqrt_mul:
  assumes "admissible rt"
  shows "duo_sound rt (OpSqrt, OpMul, OpSqrt, OpSqrt, OpMul)"
proof -
  have "rt (x * y) = Some (sx * sy)" if "rt x = Some sx" "rt y = Some sy" for x y sx sy
    using assms that unfolding admissible_def by blast
  then show ?thesis
    by (auto simp: duo_sound_def value_defs split: option.splits)
qed

lemma duo_sound_sqrt_div:
  assumes "admissible rt"
  shows "duo_sound rt (OpSqrt, OpDiv, OpSqrt, OpSqrt, OpDiv)"
proof -
  have "y \<noteq> 0 \<and> rt (x / y) = Some (sx / sy)"
    if "rt x = Some sx" "rt y = Some sy" "sy \<noteq> 0" for x y sx sy
  proof -
    have "rt (x / y) = Some (sx / sy)"
      using assms that unfolding admissible_def by blast
    moreover have "sy * sy = y"
      using rational_root_Some [OF admissible_sub [OF assms that(2)]] by simp
    then have "y \<noteq> 0" using that(3) by auto
    ultimately show ?thesis
      by simp
  qed
  then show ?thesis
    by (auto simp: duo_sound_def value_defs split: option.splits if_splits)
qed

lemma duoTable_sound: "admissible rt \<Longrightarrow> list_all (duo_sound rt) duoTable"
  by (simp add: duoTable_def duo_sound_plain duo_sound_div duo_sound_sqrt_mul duo_sound_sqrt_div)

lemma trioTable_sound: "list_all trio_sound trioTable"
  by (auto simp: trioTable_def trio_sound_def PerformBinary_def rational_PerformBinary_def
      split: option.splits if_splits)

section \<open>Well-formed trees and their weight\<close>

text \<open>
  The weight of a tree bounds the recursion of \<open>Simplify\<close>: every rewrite rule lowers
  it, and it grows with the weight of either child.
\<close>

fun weight :: "Node \<Rightarrow> nat" where
  "weight (Node l r v p) =
     (case l of
        None \<Rightarrow> (case r of None \<Rightarrow> 2 | Some b \<Rightarrow> Suc (weight b))
      | Some a \<Rightarrow> (case r of None \<Rightarrow> Suc (weight a) | Some b \<Rightarrow> weight a * weight b + weight b))"

declare valid_tree.simps [simp del]

lemma weight_ge2: "2 \<le> weight n"
proof (induction n)
  case (Node l r v p)
  show ?case
  proof (cases r)
    case None
    show ?thesis
    proof (cases l)
      case (Some a)
      then have "2 \<le> weight a" using Node.IH(1) by simp
      then show ?thesis using Some None by simp
    qed (simp add: None)
  next
    case (Some b)
    then have "2 \<le> weight b" using Node.IH(2) by simp
    then show ?thesis using Some by (cases l) (auto intro: trans_le_add2)
  qed
qed

lemma weight_unary: "left n = Some a \<Longrightarrow> right n = None \<Longrightarrow> weight n = Suc (weight a)"
  by (cases n) simp

lemma weight_binary:
  "left n = Some a \<Longrightarrow> right n = Some b \<Longrightarrow> weight n = weight a * weight b + weight b"
  by (cases n) simp

lemma valid_shape:
  assumes "valid n"
  shows "(op n = OpNull \<and> left n = None \<and> right n = None)
         \<or> (binary (op n) \<and> (\<exists>l r. left n = Some l \<and> right n = Some r))
         \<or> (unary (op n) \<and> (\<exists>l. left n = Some l \<and> right n = None))"
  using assms by (cases "op n") (auto simp: valid_def binary_def unary_def)

lemma op_kinds:
  "binary p \<Longrightarrow> p \<noteq> OpNull" "unary p \<Longrightarrow> p \<noteq> OpNull" "binary p \<Longrightarrow> \<not> unary p"
  by (cases p; simp add: binary_def unary_def)+

lemma valid_binary: "binary (op n) \<Longrightarrow> valid n = (left n \<noteq> None \<and> right n \<noteq> None)"
  by (cases "op n") (simp_all add: valid_def binary_def)

lemma valid_unary: "unary (op n) \<Longrightarrow> valid n = (left n \<noteq> None \<and> right n = None)"
  by (cases "op n") (simp_all add: valid_def unary_def)

lemma valid_tree_valid: "valid_tree n \<Longrightarrow> valid n"
  by (subst (asm) valid_tree.simps) simp

lemma valid_tree_left: "valid_tree n \<Longrightarrow> left n = Some l \<Longrightarrow> valid_tree l"
  by (subst (asm) valid_tree.simps) simp

lemma valid_tree_right: "valid_tree n \<Longrightarrow> right n = Some r \<Longrightarrow> valid_tree r"
  by (subst (asm) valid_tree.simps) simp

lemma valid_tree_val: "valid_tree n \<Longrightarrow> op n = OpNull \<Longrightarrow> val n \<noteq> None"
  by (subst (asm) valid_tree.simps) simp

lemma valid_tree_binaryI:
  "binary p \<Longrightarrow> valid_tree a \<Longrightarrow> valid_tree b \<Longrightarrow> valid_tree (Node (Some a) (Some b) v p)"
  by (subst valid_tree.simps) (simp add: valid_binary op_kinds)

lemma valid_tree_unaryI:
  "unary p \<Longrightarrow> valid_tree a \<Longrightarrow> valid_tree (Node (Some a) None v p)"
  by (subst valid_tree.simps) (simp add: valid_unary op_kinds)

lemma valid_tree_binary:
  assumes "valid_tree n" "binary (op n)"
  obtains l r where "left n = Some l" "right n = Some r" "valid_tree l" "valid_tree r"
  using valid_shape [OF valid_tree_valid [OF assms(1)]] assms
  by (auto simp: op_kinds dest: valid_tree_left valid_tree_right)

lemma valid_tree_unary:
  assumes "valid_tree n" "unary (op n)"
  obtains l where "left n = Some l" "right n = None" "valid_tree l"
  using valid_shape [OF valid_tree_valid [OF assms(1)]] assms
  by (auto simp: op_kinds dest: valid_tree_left)

lemma Eval_leaf: "valid n \<Longrightarrow> op n = OpNull \<Longrightarrow> Eval n = Inr (val n)"
  by (subst Eval.simps) simp

lemma Eval_binary:
  "valid n \<Longrightarrow> binary (op n) \<Longrightarrow> left n = Some l \<Longrightarrow> right n = Some r \<Longrightarrow>
   Eval n = (case Eval l of
               Inl err \<Rightarrow> Inl err
             | Inr lv \<Rightarrow> (case Eval r of Inl err \<Rightarrow> Inl err | Inr rv \<Rightarrow> PerformBinary lv (op n) rv))"
  by (subst Eval.simps) (simp add: op_kinds split: sum.splits)

lemma Eval_unary:
  "valid n \<Longrightarrow> unary (op n) \<Longrightarrow> left n = Some l \<Longrightarrow>
   Eval n = (case Eval l of Inl err \<Rightarrow> Inl err | Inr lv \<Rightarrow> PerformUnary lv (op n))"
  by (subst Eval.simps) (auto simp: op_kinds)

lemma Eval_invalid: "\<not> valid n \<Longrightarrow> Eval n = Inl (Errorf ''invalid formula '')"
  by (subst Eval.simps) simp

lemma Eval_with_invalid: "\<not> valid n \<Longrightarrow> Eval_with rt n = Inl (Errorf ''invalid formula '')"
  by (subst Eval_with.simps) simp

lemma Eval_with_leaf: "valid n \<Longrightarrow> op n = OpNull \<Longrightarrow> Eval_with rt n = Inr (val n)"
  by (subst Eval_with.simps) simp

lemma Eval_with_binary:
  "valid n \<Longrightarrow> binary (op n) \<Longrightarrow> left n = Some l \<Longrightarrow> right n = Some r \<Longrightarrow>
   Eval_with rt n =
     (case Eval_with rt l of
        Inl err \<Rightarrow> Inl err
      | Inr lv \<Rightarrow> (case Eval_with rt r of Inl err \<Rightarrow> Inl err | Inr rv \<Rightarrow> PerformBinary lv (op n) rv))"
  by (subst Eval_with.simps) (simp add: op_kinds split: sum.splits)

lemma Eval_with_unary:
  "valid n \<Longrightarrow> unary (op n) \<Longrightarrow> left n = Some l \<Longrightarrow>
   Eval_with rt n = (case Eval_with rt l of Inl err \<Rightarrow> Inl err | Inr lv \<Rightarrow> PerformUnary_with rt lv (op n))"
  by (subst Eval_with.simps) (auto simp: op_kinds)

text \<open>The program's evaluation is the evaluation under the program's root.\<close>

lemma PerformUnary_with_sqrt: "PerformUnary_with rational_sqrt v p = PerformUnary v p"
  by (cases v) (auto simp: PerformUnary_def PerformUnary_with_def rational_PerformUnary_def)

lemma Eval_with_sqrt: "Eval_with rational_sqrt n = Eval n"
proof (induction "size n" arbitrary: n rule: less_induct)
  case less
  show ?case
  proof (cases "valid n")
    case False
    then show ?thesis by (simp add: Eval_invalid Eval_with_invalid)
  next
    case v: True
    from valid_shape [OF v] show ?thesis
    proof (elim disjE conjE exE)
      assume "op n = OpNull"
      then show ?thesis using v by (simp add: Eval_leaf Eval_with_leaf)
    next
      fix l r assume b: "binary (op n)" and lr: "left n = Some l" "right n = Some r"
      have "Eval_with rational_sqrt l = Eval l" "Eval_with rational_sqrt r = Eval r"
        using lr by (auto intro!: less.hyps simp: size_left size_right)
      then show ?thesis
        by (simp add: Eval_binary [OF v b lr] Eval_with_binary [OF v b lr] split: sum.splits)
    next
      fix l assume u: "unary (op n)" and l: "left n = Some l" "right n = None"
      have "Eval_with rational_sqrt l = Eval l"
        using l by (auto intro!: less.hyps simp: size_left)
      then show ?thesis
        by (simp add: Eval_unary [OF v u l(1)] Eval_with_unary [OF v u l(1)] PerformUnary_with_sqrt
            split: sum.splits)
    qed
  qed
qed

text \<open>A root function that is defined on more arguments gives a value to more formulas.\<close>

lemma PerformUnary_with_mono:
  assumes "\<And>x s. rt x = Some s \<Longrightarrow> rt' x = Some s" "PerformUnary_with rt lv p = Inr v"
  shows "PerformUnary_with rt' lv p = Inr v"
proof (cases lv)
  case None
  then show ?thesis using assms(2) by (simp add: PerformUnary_with_def)
next
  case (Some r)
  show ?thesis
  proof (cases "p = OpSqrt")
    case False
    then show ?thesis using assms(2) by (simp add: PerformUnary_with_def Some)
  next
    case True
    then obtain q where "rt r = Some q" "v = Some q"
      using assms(2) by (auto simp: PerformUnary_with_def Some split: option.splits)
    then show ?thesis using assms(1) [of r q] True by (simp add: PerformUnary_with_def Some)
  qed
qed

lemma Eval_with_mono:
  assumes sub: "\<And>x s. rt x = Some s \<Longrightarrow> rt' x = Some s"
  shows "Eval_with rt n = Inr v \<Longrightarrow> Eval_with rt' n = Inr v"
proof (induction "size n" arbitrary: n v rule: less_induct)
  case less
  show ?case
  proof (cases "valid n")
    case False
    then show ?thesis using less.prems by (simp add: Eval_with_invalid)
  next
    case vn: True
    from valid_shape [OF vn] show ?thesis
    proof (elim disjE conjE exE)
      assume "op n = OpNull"
      then show ?thesis using vn less.prems by (simp add: Eval_with_leaf)
    next
      fix l r assume b: "binary (op n)" and lr: "left n = Some l" "right n = Some r"
      from less.prems obtain lv rv where e: "Eval_with rt l = Inr lv" "Eval_with rt r = Inr rv"
        "PerformBinary lv (op n) rv = Inr v"
        by (auto simp: Eval_with_binary [OF vn b lr] split: sum.splits)
      have "Eval_with rt' l = Inr lv" "Eval_with rt' r = Inr rv"
        using lr e(1,2) by (auto intro!: less.hyps simp: size_left size_right)
      then show ?thesis
        using e(3) by (simp add: Eval_with_binary [OF vn b lr])
    next
      fix l assume u: "unary (op n)" and l: "left n = Some l" "right n = None"
      from less.prems obtain lv where e: "Eval_with rt l = Inr lv"
        "PerformUnary_with rt lv (op n) = Inr v"
        by (auto simp: Eval_with_unary [OF vn u l(1)] split: sum.splits)
      have "Eval_with rt' l = Inr lv"
        using l e(1) by (auto intro!: less.hyps simp: size_left)
      then show ?thesis
        using PerformUnary_with_mono [OF sub e(2)] by (simp add: Eval_with_unary [OF vn u l(1)])
    qed
  qed
qed

text \<open>
  The value of the guard of the power rule, which the program computes with its own
  root, is the value of the exponent under every admissible root function that gives it
  one.
\<close>

lemma Eval_root: "Eval n = Inr v \<Longrightarrow> Eval_with rational_root n = Inr v"
  using Eval_with_mono [of rational_sqrt rational_root n v] rational_sqrt_root
  by (simp add: Eval_with_sqrt)

lemma guard_value:
  assumes "admissible rt" "Eval r = Inr (Some q)" "Eval_with rt r = Inr rv"
  shows "rv = Some q"
proof -
  have "Eval_with rational_root r = Inr rv"
    using admissible_sub [OF assms(1)] assms(3) by (rule Eval_with_mono)
  then show ?thesis
    using Eval_root [OF assms(2)] by simp
qed



text \<open>
  \<open>preserves rt x r\<close>: where \<open>x\<close> has a value under \<open>rt\<close>, \<open>r\<close> has the same.
  \<open>good rt S x\<close>: the call \<open>S x\<close> returns a well-formed tree \<open>r\<close> that is \<open>x\<close> itself or
  lighter than \<open>x\<close>, has the value of \<open>x\<close>, and is returned as it is by \<open>S\<close>.
\<close>

definition preserves :: "(rational \<Rightarrow> rational option) \<Rightarrow> Node \<Rightarrow> Node \<Rightarrow> bool" where
  "preserves rt x r = (\<forall>v. Eval_with rt x = Inr v \<longrightarrow> Eval_with rt r = Inr v)"

definition good ::
  "(rational \<Rightarrow> rational option) \<Rightarrow> (Node \<Rightarrow> (error + Node \<times> bool) option) \<Rightarrow> Node \<Rightarrow> bool" where
  "good rt S x =
     (\<exists>r c. S x = Some (Inr (r, c)) \<and> valid_tree r
            \<and> (if c then weight r < weight x else r = x)
            \<and> preserves rt x r \<and> S r = Some (Inr (r, False)))"

lemma preserves_refl: "preserves rt x x"
  by (simp add: preserves_def)

lemma preserves_trans: "preserves rt x y \<Longrightarrow> preserves rt y z \<Longrightarrow> preserves rt x z"
  by (simp add: preserves_def)

lemma goodE:
  assumes "good rt S x"
  obtains r c where "S x = Some (Inr (r, c))" "valid_tree r" "weight r \<le> weight x"
    "c \<Longrightarrow> weight r < weight x" "\<not> c \<Longrightarrow> r = x" "preserves rt x r" "S r = Some (Inr (r, False))"
proof -
  from assms obtain r c where h: "S x = Some (Inr (r, c))" "valid_tree r"
    "if c then weight r < weight x else r = x" "preserves rt x r" "S r = Some (Inr (r, False))"
    unfolding good_def by blast
  show thesis
    by (rule that [of r c]) (use h in \<open>auto split: if_splits\<close>)
qed

section \<open>One application of transformDuo\<close>

lemma operand_valid:
  assumes "valid_tree l" "p = OpNull \<or> unary p" "operand l p = Some x"
  shows "valid_tree x
         \<and> ((p = OpNull \<and> x = l) \<or> (unary p \<and> op l = p \<and> left l = Some x \<and> right l = None))"
proof (cases "op l = p \<and> left l \<noteq> None")
  case True
  then have lx: "left l = Some x" using assms(3) by (simp add: operand_def)
  have "p \<noteq> OpNull"
    using True valid_tree_valid [OF assms(1)] by (auto simp: valid_def)
  then have u: "unary p" using assms(2) by simp
  then have "right l = None"
    using True valid_tree_valid [OF assms(1)] by (auto simp: valid_unary)
  then show ?thesis
    using lx u True valid_tree_left [OF assms(1) lx] by simp
next
  case False
  then show ?thesis
    using assms by (auto simp: operand_def split: if_splits)
qed

lemma operand_weight:
  assumes "valid_tree l" "p = OpNull \<or> unary p" "operand l p = Some x"
  shows "weight x \<le> weight l \<and> (p \<noteq> OpNull \<longrightarrow> weight l = Suc (weight x))"
  using operand_valid [OF assms] by (auto simp: weight_unary op_kinds)

lemma operand_eval:
  assumes "valid_tree l" "p = OpNull \<or> unary p" "operand l p = Some x" "Eval_with rt l = Inr lv"
  shows "\<exists>a. Eval_with rt x = Inr a \<and> apply_wrapper rt p a = Inr lv"
proof -
  from operand_valid [OF assms(1-3)]
  consider "p = OpNull" "x = l" | "unary p" "op l = p" "left l = Some x"
    by blast
  then show ?thesis
  proof cases
    case 1
    then show ?thesis using assms(4) by (simp add: apply_wrapper_def)
  next
    case 2
    have "Eval_with rt l = (case Eval_with rt x of Inl err \<Rightarrow> Inl err | Inr a \<Rightarrow> PerformUnary_with rt a p)"
      using Eval_with_unary [OF valid_tree_valid [OF assms(1)], of x] 2 by auto
    moreover have "p \<noteq> OpNull" using 2(1) by (simp add: op_kinds)
    ultimately show ?thesis
      using assms(4) by (auto simp: apply_wrapper_def split: sum.splits)
  qed
qed

lemma binary_weight_children:
  fixes l r :: nat
  assumes "2 \<le> l" "2 \<le> r"
  shows "l < l * r + r" "r < l * r + r"
proof -
  have "l * 1 \<le> l * r" using assms by (intro mult_le_mono2) simp
  then show "l < l * r + r" using assms by linarith
  have "0 < l * r" using assms by simp
  then show "r < l * r + r" by simp
qed

lemma duo_weight:
  fixes a b x y l r :: nat
  assumes "a \<le> x" "b \<le> y" "x \<le> l" "y \<le> r" "l = Suc x \<or> r = Suc y" "2 \<le> a" "2 \<le> b"
  shows "Suc (a * b + b) < l * r + r"
proof -
  have ab: "a * b \<le> x * y" using assms(1,2) by (rule mult_le_mono)
  from assms(5) show ?thesis
  proof
    assume l: "l = Suc x"
    have "x * y \<le> x * r" using assms(4) by simp
    then have "a * b + 2 * b \<le> x * r + 2 * r" using ab assms(2,4) by linarith
    then show ?thesis using assms(7) by (simp add: l)
  next
    assume r: "r = Suc y"
    have "x * y \<le> l * y" using assms(3) by simp
    then have "a * b + a + b \<le> l * y + l + y" using ab assms(1-4) by linarith
    then show ?thesis using assms(6) by (simp add: r)
  qed
qed

lemma transformDuo_step:
  assumes gb: "\<And>x. valid_tree x \<Longrightarrow> weight x < weight n \<Longrightarrow> good rt S x"
    and vn: "valid_tree n"
    and sh: "duo_shape (op1, op2, op3, op4, op5)"
    and so: "duo_sound rt (op1, op2, op3, op4, op5)"
  shows "\<exists>n2 c. transformDuo S n op1 op2 op3 op4 op5 = Some (Inr (n2, c)) \<and> valid_tree n2
                \<and> (if c then weight n2 < weight n else n2 = n) \<and> preserves rt n n2"
proof -
  have same: ?thesis if "transformDuo S n op1 op2 op3 op4 op5 = Some (Inr (n, False))"
    using that vn by (intro exI [of _ n] exI [of _ False]) (simp add: preserves_refl)
  from sh have b2: "binary op2" and b5: "binary op5" and w1: "op1 = OpNull \<or> unary op1"
    and w3: "op3 = OpNull \<or> unary op3" and w4: "op4 = OpNull \<or> unary op4"
    and w13: "op1 \<noteq> OpNull \<or> op3 \<noteq> OpNull"
    by (auto simp: duo_shape_def)
  show ?thesis
  proof (cases "op n = op2")
    case False
    then show ?thesis by (intro same) (simp add: transformDuo_def)
  next
    case True
    with vn b2 obtain l r where lr: "left n = Some l" "right n = Some r"
      and vl: "valid_tree l" and vr: "valid_tree r"
      by (auto elim: valid_tree_binary)
    have wn: "weight n = weight l * weight r + weight r"
      using lr by (rule weight_binary)
    have "weight l < weight n" "weight r < weight n"
      unfolding wn by (rule binary_weight_children [OF weight_ge2 weight_ge2])+
    show ?thesis
    proof (cases "operand l op1")
      case None
      then show ?thesis by (intro same) (simp add: transformDuo_def True lr)
    next
      case (Some x)
      note ox = operand_valid [OF vl w1 Some] operand_weight [OF vl w1 Some]
      have vx: "valid_tree x" and wx: "weight x \<le> weight l" using ox by auto
      have "good rt S x" using vx wx \<open>weight l < weight n\<close> by (intro gb) auto
      then obtain a ca where Sx: "S x = Some (Inr (a, ca))" and va: "valid_tree a"
        and wa: "weight a \<le> weight x" and pa: "preserves rt x a"
        by (rule goodE) blast
      show ?thesis
      proof (cases "operand r op3")
        case None
        then show ?thesis
          by (intro same) (simp add: transformDuo_def True lr Some Sx andThen_simps)
      next
        case y: (Some y)
        note oy = operand_valid [OF vr w3 y] operand_weight [OF vr w3 y]
        have vy: "valid_tree y" and wy: "weight y \<le> weight r" using oy by auto
        have "good rt S y" using vy wy \<open>weight r < weight n\<close> by (intro gb) auto
        then obtain b cb where Sy: "S y = Some (Inr (b, cb))" and vb: "valid_tree b"
          and wb: "weight b \<le> weight y" and pb: "preserves rt y b"
          by (rule goodE) blast
        define n1 where "n1 = Node (Some a) (Some b) None op5"
        have vn1: "valid_tree n1"
          unfolding n1_def using b5 va vb by (rule valid_tree_binaryI)
        have wn1: "weight n1 = weight a * weight b + weight b"
          by (simp add: n1_def)
        have "weight l = Suc (weight x) \<or> weight r = Suc (weight y)"
          using w13 ox(2) oy(2) by auto
        then have lt: "Suc (weight n1) < weight n"
          unfolding wn wn1 using wa wb wx wy weight_ge2 [of a] weight_ge2 [of b]
          by (intro duo_weight) auto
        have ev: "\<exists>m. Eval_with rt n1 = Inr m \<and> apply_wrapper rt op4 m = Inr v" if "Eval_with rt n = Inr v" for v
        proof -
          from that obtain lv rv where el: "Eval_with rt l = Inr lv" and er: "Eval_with rt r = Inr rv"
            and pv: "PerformBinary lv op2 rv = Inr v"
            using Eval_with_binary [OF valid_tree_valid [OF vn] _ lr] b2 True
            by (auto split: sum.splits)
          from operand_eval [OF vl w1 Some el] obtain xa where
            xa: "Eval_with rt x = Inr xa" "apply_wrapper rt op1 xa = Inr lv" by blast
          from operand_eval [OF vr w3 y er] obtain yb where
            yb: "Eval_with rt y = Inr yb" "apply_wrapper rt op3 yb = Inr rv" by blast
          from so xa(2) yb(2) pv obtain m where
            m: "PerformBinary xa op5 yb = Inr m" "apply_wrapper rt op4 m = Inr v"
            unfolding duo_sound_def by (simp only: prod.case) blast
          have "Eval_with rt a = Inr xa" "Eval_with rt b = Inr yb"
            using pa pb xa(1) yb(1) by (auto simp: preserves_def)
          then have "Eval_with rt n1 = Inr m"
            using Eval_with_binary [OF valid_tree_valid [OF vn1], of a b] b5 m(1)
            by (simp add: n1_def)
          with m(2) show ?thesis by blast
        qed
        show ?thesis
        proof (cases "op4 = OpNull")
          case True4: True
          have "transformDuo S n op1 op2 op3 op4 op5 = Some (Inr (n1, True))"
            by (simp add: transformDuo_def True lr Some Sx y Sy andThen_simps True4 n1_def)
          moreover have "preserves rt n n1"
            unfolding preserves_def using ev True4 by (auto simp: apply_wrapper_def)
          ultimately show ?thesis
            using vn1 lt by auto
        next
          case False
          then have u4: "unary op4" using w4 by simp
          have "good rt S n1" using vn1 lt by (intro gb) auto
          then obtain n1' c1 where Sn1: "S n1 = Some (Inr (n1', c1))" and vn1': "valid_tree n1'"
            and wn1': "weight n1' \<le> weight n1" and pn1: "preserves rt n1 n1'"
            by (rule goodE) blast
          define n2 where "n2 = Node (Some n1') None None op4"
          have "transformDuo S n op1 op2 op3 op4 op5 = Some (Inr (n2, True))"
            using Sn1 False
            by (simp add: transformDuo_def True lr Some Sx y Sy andThen_simps n1_def [symmetric] n2_def)
          moreover have "valid_tree n2"
            unfolding n2_def using u4 vn1' by (rule valid_tree_unaryI)
          moreover have "weight n2 < weight n"
            using lt wn1' by (simp add: n2_def)
          moreover have "preserves rt n n2"
            unfolding preserves_def
          proof (intro allI impI)
            fix v assume "Eval_with rt n = Inr v"
            from ev [OF this] obtain m where m: "Eval_with rt n1 = Inr m" "apply_wrapper rt op4 m = Inr v"
              by blast
            then have "Eval_with rt n1' = Inr m" using pn1 by (simp add: preserves_def)
            then show "Eval_with rt n2 = Inr v"
              using Eval_with_unary [OF valid_tree_valid [OF \<open>valid_tree n2\<close>], of n1'] u4 m(2) False
              by (simp add: n2_def apply_wrapper_def)
          qed
          ultimately show ?thesis by auto
        qed
      qed
    qed
  qed
qed

lemma duoLoop_steps:
  assumes gb: "\<And>x. valid_tree x \<Longrightarrow> weight x < B \<Longrightarrow> good rt S x"
    and "valid_tree n1" "weight n1 \<le> B" "list_all duo_shape ts" "list_all (duo_sound rt) ts"
  shows "\<exists>n2 c. duoLoop S ts (n1, ch) = Some (Inr (n2, c)) \<and> valid_tree n2
                \<and> weight n2 \<le> weight n1
                \<and> (if c then ch \<or> weight n2 < weight n1 else \<not> ch \<and> n2 = n1)
                \<and> preserves rt n1 n2"
  using assms(2-)
proof (induction ts arbitrary: n1 ch)
  case Nil
  then show ?case
    by (intro exI [of _ n1] exI [of _ ch]) (simp add: preserves_refl)
next
  case (Cons t ts)
  obtain op1 op2 op3 op4 op5 where t: "t = (op1, op2, op3, op4, op5)"
    by (cases t) auto
  have "\<exists>n2 c. transformDuo S n1 op1 op2 op3 op4 op5 = Some (Inr (n2, c)) \<and> valid_tree n2
                \<and> (if c then weight n2 < weight n1 else n2 = n1) \<and> preserves rt n1 n2"
    using Cons.prems by (intro transformDuo_step gb) (auto simp: t)
  then obtain n2 c where s: "transformDuo S n1 op1 op2 op3 op4 op5 = Some (Inr (n2, c))"
    and v2: "valid_tree n2" and w2: "if c then weight n2 < weight n1 else n2 = n1"
    and p2: "preserves rt n1 n2"
    by blast
  have le: "weight n2 \<le> weight n1" using w2 by (auto split: if_splits)
  from Cons.IH [of n2 "ch \<or> c"] v2 le Cons.prems
  obtain n3 c3 where l3: "duoLoop S ts (n2, ch \<or> c) = Some (Inr (n3, c3))" and v3: "valid_tree n3"
    and w3: "weight n3 \<le> weight n2"
    and f3: "if c3 then (ch \<or> c) \<or> weight n3 < weight n2 else \<not> (ch \<or> c) \<and> n3 = n2"
    and p3: "preserves rt n2 n3"
    by auto
  have "duoLoop S (t # ts) (n1, ch) = Some (Inr (n3, c3))"
    by (simp add: t s andThen_simps l3)
  moreover have "if c3 then ch \<or> weight n3 < weight n1 else \<not> ch \<and> n3 = n1"
    using f3 w2 w3 by (auto split: if_splits)
  ultimately show ?case
    using v3 w3 le p2 p3 by (intro exI [of _ n3] exI [of _ c3]) (auto intro: preserves_trans)
qed

section \<open>One application of transformTrio\<close>

lemma trio_weight:
  fixes a b c a' b' c' m :: nat
  assumes "a' \<le> a" "b' \<le> b" "c' \<le> c" "m \<le> a' * b' + b'" "2 \<le> a" "2 \<le> c"
  shows "a' * b' + b' < a * (b * c + c) + (b * c + c)"
    and "m * c' + c' < a * (b * c + c) + (b * c + c)"
proof -
  have rhs: "a * (b * c + c) + (b * c + c) = a * (b * c) + a * c + b * c + c"
    by (simp add: distrib_left)
  have x: "a' * b' + b' \<le> a * b + b"
    using assms(1,2) by (simp add: add_mono mult_le_mono)
  have "a * b * 2 \<le> a * b * c" using assms(6) by (rule mult_le_mono2)
  then have y: "a * b + a * b \<le> a * (b * c)" by (metis mult.assoc mult_2_right)
  have z: "b \<le> a * b" using assms(5) by simp
  have c0: "0 < c" using assms(6) by simp
  show "a' * b' + b' < a * (b * c + c) + (b * c + c)"
    unfolding rhs using x y z c0 by linarith
  have "m * c' \<le> (a * b + b) * c"
    using assms(3,4) x by (intro mult_le_mono) auto
  then have u: "m * c' \<le> a * (b * c) + b * c"
    by (simp add: distrib_right mult.assoc)
  have "0 < a * c" using assms(5,6) by simp
  then show "m * c' + c' < a * (b * c + c) + (b * c + c)"
    unfolding rhs using u assms(3) by linarith
qed

lemma transformTrio_step:
  assumes gb: "\<And>x. valid_tree x \<Longrightarrow> weight x < weight n \<Longrightarrow> good rt S x"
    and vn: "valid_tree n"
    and sh: "trio_shape (op1, op2, op3, op4)"
    and so: "trio_sound (op1, op2, op3, op4)"
  shows "\<exists>n2 c. transformTrio S n op1 op2 op3 op4 = Some (Inr (n2, c)) \<and> valid_tree n2
                \<and> (if c then weight n2 < weight n else n2 = n) \<and> preserves rt n n2"
proof -
  have same: ?thesis if "transformTrio S n op1 op2 op3 op4 = Some (Inr (n, False))"
    using that vn by (intro exI [of _ n] exI [of _ False]) (simp add: preserves_refl)
  from sh have b1: "binary op1" and b2: "binary op2" and b3: "binary op3" and b4: "binary op4"
    by (auto simp: trio_shape_def)
  show ?thesis
  proof (cases "op n = op1")
    case False
    then show ?thesis by (intro same) (simp add: transformTrio_def)
  next
    case True
    with vn b1 obtain a r where ar: "left n = Some a" "right n = Some r"
      and va: "valid_tree a" and vr: "valid_tree r"
      by (auto elim: valid_tree_binary)
    show ?thesis
    proof (cases "op r = op2")
      case False
      then show ?thesis by (intro same) (simp add: transformTrio_def True ar)
    next
      case r2: True
      with vr b2 obtain b c where bc: "left r = Some b" "right r = Some c"
        and vb: "valid_tree b" and vc: "valid_tree c"
        by (auto elim: valid_tree_binary)
      have wr: "weight r = weight b * weight c + weight c"
        using bc by (rule weight_binary)
      have wn: "weight n = weight a * (weight b * weight c + weight c)
                  + (weight b * weight c + weight c)"
        using weight_binary [OF ar] by (simp add: wr)
      have "weight a < weight n" "weight r < weight n"
        using binary_weight_children [OF weight_ge2 [of a] weight_ge2 [of r]]
        by (simp_all add: weight_binary [OF ar])
      moreover have "weight b < weight r" "weight c < weight r"
        unfolding wr by (rule binary_weight_children [OF weight_ge2 weight_ge2])+
      ultimately have "good rt S a" "good rt S b" "good rt S c"
        using va vb vc by (auto intro!: gb)
      then obtain a' ca b' cb c' cc where
        Sa: "S a = Some (Inr (a', ca))" "valid_tree a'" "weight a' \<le> weight a" "preserves rt a a'"
        and Sb: "S b = Some (Inr (b', cb))" "valid_tree b'" "weight b' \<le> weight b" "preserves rt b b'"
        and Sc: "S c = Some (Inr (c', cc))" "valid_tree c'" "weight c' \<le> weight c" "preserves rt c c'"
        by (elim goodE) blast
      define n1 where "n1 = Node (Some a') (Some b') None op3"
      have vn1: "valid_tree n1"
        unfolding n1_def using b3 Sa(2) Sb(2) by (rule valid_tree_binaryI)
      have wn1: "weight n1 = weight a' * weight b' + weight b'"
        by (simp add: n1_def)
      have "weight n1 < weight n"
        unfolding wn wn1 using Sa(3) Sb(3) Sc(3) weight_ge2 [of a] weight_ge2 [of c]
        by (intro trio_weight(1) [where m = "weight a' * weight b' + weight b'" and c' = "weight c'"])
          auto
      then have "good rt S n1" using vn1 by (intro gb)
      then obtain n1' c1 where Sn1: "S n1 = Some (Inr (n1', c1))" and vn1': "valid_tree n1'"
        and wn1': "weight n1' \<le> weight n1" and pn1: "preserves rt n1 n1'"
        by (rule goodE) blast
      define n2 where "n2 = Node (Some n1') (Some c') None op4"
      have vn2: "valid_tree n2"
        unfolding n2_def using b4 vn1' Sc(2) by (rule valid_tree_binaryI)
      have "weight n2 < weight n"
        unfolding wn using Sa(3) Sb(3) Sc(3) wn1' weight_ge2 [of a] weight_ge2 [of c]
        by (simp add: n2_def) (intro trio_weight(2) [where a' = "weight a'" and b' = "weight b'"],
            auto simp: wn1)
      moreover have "transformTrio S n op1 op2 op3 op4 = Some (Inr (n2, True))"
        using Sn1
        by (simp add: transformTrio_def True ar r2 bc call_def Sa(1) Sb(1) Sc(1) andThen_simps
            n1_def [symmetric] n2_def)
      moreover have "preserves rt n n2"
        unfolding preserves_def
      proof (intro allI impI)
        fix v assume "Eval_with rt n = Inr v"
        then obtain av rv where ea: "Eval_with rt a = Inr av" and er: "Eval_with rt r = Inr rv"
          and pv: "PerformBinary av op1 rv = Inr v"
          using Eval_with_binary [OF valid_tree_valid [OF vn] _ ar] b1 True
          by (auto split: sum.splits)
        from er obtain bv cv where eb: "Eval_with rt b = Inr bv" and ec: "Eval_with rt c = Inr cv"
          and pr: "PerformBinary bv op2 cv = Inr rv"
          using Eval_with_binary [OF valid_tree_valid [OF vr] _ bc] b2 r2
          by (auto split: sum.splits)
        from so pr pv obtain ab where
          ab: "PerformBinary av op3 bv = Inr ab" "PerformBinary ab op4 cv = Inr v"
          unfolding trio_sound_def by (simp only: prod.case) blast
        have "Eval_with rt a' = Inr av" "Eval_with rt b' = Inr bv" "Eval_with rt c' = Inr cv"
          using Sa(4) Sb(4) Sc(4) ea eb ec by (auto simp: preserves_def)
        then have "Eval_with rt n1 = Inr ab"
          using Eval_with_binary [OF valid_tree_valid [OF vn1], of a' b'] b3 ab(1)
          by (simp add: n1_def)
        then have "Eval_with rt n1' = Inr ab" using pn1 by (simp add: preserves_def)
        then show "Eval_with rt n2 = Inr v"
          using Eval_with_binary [OF valid_tree_valid [OF vn2], of n1' c'] b4 ab(2) \<open>Eval_with rt c' = Inr cv\<close>
          by (simp add: n2_def)
      qed
      ultimately show ?thesis
        using vn2 by auto
    qed
  qed
qed

lemma trioLoop_steps:
  assumes gb: "\<And>x. valid_tree x \<Longrightarrow> weight x < B \<Longrightarrow> good rt S x"
    and "valid_tree n1" "weight n1 \<le> B" "list_all trio_shape ts" "list_all trio_sound ts"
  shows "\<exists>n2 c. trioLoop S ts (n1, ch) = Some (Inr (n2, c)) \<and> valid_tree n2
                \<and> weight n2 \<le> weight n1
                \<and> (if c then ch \<or> weight n2 < weight n1 else \<not> ch \<and> n2 = n1)
                \<and> preserves rt n1 n2"
  using assms(2-)
proof (induction ts arbitrary: n1 ch)
  case Nil
  then show ?case
    by (intro exI [of _ n1] exI [of _ ch]) (simp add: preserves_refl)
next
  case (Cons t ts)
  obtain op1 op2 op3 op4 where t: "t = (op1, op2, op3, op4)"
    by (cases t) auto
  have "\<exists>n2 c. transformTrio S n1 op1 op2 op3 op4 = Some (Inr (n2, c)) \<and> valid_tree n2
                \<and> (if c then weight n2 < weight n1 else n2 = n1) \<and> preserves rt n1 n2"
    using Cons.prems by (intro transformTrio_step gb) (auto simp: t)
  then obtain n2 c where s: "transformTrio S n1 op1 op2 op3 op4 = Some (Inr (n2, c))"
    and v2: "valid_tree n2" and w2: "if c then weight n2 < weight n1 else n2 = n1"
    and p2: "preserves rt n1 n2"
    by blast
  have le: "weight n2 \<le> weight n1" using w2 by (auto split: if_splits)
  from Cons.IH [of n2 "ch \<or> c"] v2 le Cons.prems
  obtain n3 c3 where l3: "trioLoop S ts (n2, ch \<or> c) = Some (Inr (n3, c3))" and v3: "valid_tree n3"
    and w3: "weight n3 \<le> weight n2"
    and f3: "if c3 then (ch \<or> c) \<or> weight n3 < weight n2 else \<not> (ch \<or> c) \<and> n3 = n2"
    and p3: "preserves rt n2 n3"
    by auto
  have "trioLoop S (t # ts) (n1, ch) = Some (Inr (n3, c3))"
    by (simp add: t s andThen_simps l3)
  moreover have "if c3 then ch \<or> weight n3 < weight n1 else \<not> ch \<and> n3 = n1"
    using f3 w2 w3 by (auto split: if_splits)
  ultimately show ?case
    using v3 w3 le p2 p3 by (intro exI [of _ n3] exI [of _ c3]) (auto intro: preserves_trans)
qed

section \<open>The canonicalizer returns a well-formed tree of the same value\<close>

text \<open>
  The node \<open>n1\<close> that \<open>Simplify\<close> computes before its final test, with \<open>S\<close> for the
  recursive calls: the first argument of the outer \<open>andThen\<close> in \<open>Simplify\<close>.
\<close>

definition Simplify_n1 ::
  "(Node \<Rightarrow> (error + Node \<times> bool) option) \<Rightarrow> Node \<Rightarrow> (error + Node \<times> bool) option" where
  "Simplify_n1 S n =
     (case (if op n = OpMinus then left_op_is n OpMinus else Inr False) of
        Inl err \<Rightarrow> Some (Inl err)
      | Inr double_minus \<Rightarrow>
          if double_minus then
            andThen (call S (Option.bind (left n) left)) (\<lambda>(n1, _). Some (Inr (n1, True)))
          else
            (case (if op n = OpPow then left_op_is n OpMinus else Inr False) of
               Inl err \<Rightarrow> Some (Inl err)
             | Inr power_of_minus \<Rightarrow>
                 if power_of_minus then
                   (case right n of
                      None \<Rightarrow> Some (Inl nil_dereference)
                    | Some r \<Rightarrow>
                        (case Eval r of
                           Inl (Panic m) \<Rightarrow> Some (Inl (Panic m))
                         | Inl (Errorf m) \<Rightarrow> Some (Inr (n, False))
                         | Inr e \<Rightarrow>
                             (case Even e of
                                Inl err \<Rightarrow> Some (Inl err)
                              | Inr is_even \<Rightarrow>
                                  if is_even then
                                    andThen (call S (Option.bind (left n) left)) (\<lambda>(a, _).
                                      andThen (S r) (\<lambda>(b, _).
                                        Some (Inr (Node (Some a) (Some b) None OpPow, True))))
                                  else Some (Inr (n, False)))))
                 else
                   andThen (duoLoop S duoTable (n, False)) (\<lambda>st.
                     andThen (trioLoop S trioTable st) (\<lambda>(n1, ch).
                       if ch then Some (Inr (n1, True))
                       else
                         andThen (child S (left n)) (\<lambda>(l, cl).
                           andThen (child S (right n)) (\<lambda>(r, cr).
                             if cl \<or> cr then Some (Inr (Node l r (val n) (op n), True))
                             else Some (Inr (n, False))))))))"

lemma Simplify_unfold:
  "Simplify n =
     andThen (Simplify_n1 Simplify n)
       (\<lambda>(n1, ch).
          if ch then andThen (Simplify n1) (\<lambda>(r, _). Some (Inr (r, True)))
          else Some (Inr (n, False)))"
  unfolding Simplify_n1_def by (rule Simplify.simps)

lemma Perform_Some:
  "(\<exists>m. PerformBinary (Some a) p (Some b) = Inl (Errorf m))
   \<or> (\<exists>q. PerformBinary (Some a) p (Some b) = Inr (Some q))"
  "(\<exists>m. PerformUnary (Some a) p = Inl (Errorf m)) \<or> (\<exists>q. PerformUnary (Some a) p = Inr (Some q))"
  by (auto simp: value_defs PerformUnary_def root_error_def non_integral_root_def
      split: option.splits)

lemma Eval_valid_tree:
  "valid_tree t \<Longrightarrow> (\<exists>m. Eval t = Inl (Errorf m)) \<or> (\<exists>q. Eval t = Inr (Some q))"
proof (induction "size t" arbitrary: t rule: less_induct)
  case less
  note v = valid_tree_valid [OF less.prems]
  from valid_shape [OF v] show ?case
  proof (elim disjE conjE exE)
    assume "op t = OpNull"
    then show ?thesis
      using Eval_leaf [OF v] valid_tree_val [OF less.prems] by auto
  next
    fix l r assume b: "binary (op t)" and lr: "left t = Some l" "right t = Some r"
    have "(\<exists>m. Eval l = Inl (Errorf m)) \<or> (\<exists>q. Eval l = Inr (Some q))"
      using lr less.prems by (intro less.hyps) (auto simp: size_left valid_tree_left)
    moreover have "(\<exists>m. Eval r = Inl (Errorf m)) \<or> (\<exists>q. Eval r = Inr (Some q))"
      using lr less.prems by (intro less.hyps) (auto simp: size_right valid_tree_right)
    ultimately show ?thesis
      using Perform_Some(1) [of _ "op t"] by (auto simp: Eval_binary [OF v b lr]) blast+
  next
    fix l assume u: "unary (op t)" and l: "left t = Some l"
    have "(\<exists>m. Eval l = Inl (Errorf m)) \<or> (\<exists>q. Eval l = Inr (Some q))"
      using l less.prems by (intro less.hyps) (auto simp: size_left valid_tree_left)
    then show ?thesis
      using Perform_Some(2) [of _ "op t"] by (auto simp: Eval_unary [OF v u l]) blast+
  qed
qed

lemma child_good:
  assumes "good rt S x"
  shows "\<exists>x' c. child S (Some x) = Some (Inr (Some x', c)) \<and> valid_tree x'
                \<and> weight x' \<le> weight x \<and> (if c then weight x' < weight x else x' = x)
                \<and> preserves rt x x'"
proof -
  from assms obtain r c where "S x = Some (Inr (r, c))" "valid_tree r" "weight r \<le> weight x"
    "c \<Longrightarrow> weight r < weight x" "\<not> c \<Longrightarrow> r = x" "preserves rt x r"
    by (rule goodE) blast
  then show ?thesis
    by (intro exI [of _ r] exI [of _ c]) (simp add: child_def andThen_simps)
qed

lemma weight_strict:
  fixes a b a' b' :: nat
  assumes "a' \<le> a" "b' \<le> b" "a' < a \<or> b' < b" "0 < b'"
  shows "a' * b' + b' < a * b + b"
proof -
  from assms(3) show ?thesis
  proof
    assume "a' < a"
    then have "a' * b' < a * b'" using assms(4) by simp
    moreover have "a * b' \<le> a * b" using assms(2) by simp
    ultimately show ?thesis using assms(2) by linarith
  next
    assume "b' < b"
    moreover have "a' * b' \<le> a * b" using assms(1,2) by (rule mult_le_mono)
    ultimately show ?thesis by linarith
  qed
qed

lemma minus_value: "PerformUnary_with rt lv OpMinus = Inr v \<Longrightarrow> \<exists>q. lv = Some q \<and> v = Some (- q)"
  by (auto simp: value_defs split: option.splits)

lemma child_None: "child S None = Some (Inr (None, False))"
  by (simp add: child_def)

lemma Simplify_n1_step:
  assumes ad: "admissible rt"
    and gb: "\<And>x. valid_tree x \<Longrightarrow> weight x < weight n \<Longrightarrow> good rt S x"
    and vn: "valid_tree n"
  shows "\<exists>n1 ch. Simplify_n1 S n = Some (Inr (n1, ch)) \<and> valid_tree n1
                 \<and> (if ch then weight n1 < weight n else n1 = n) \<and> preserves rt n n1"
proof -
  have same: ?thesis if "Simplify_n1 S n = Some (Inr (n, False))"
    using that vn by (intro exI [of _ n] exI [of _ False]) (simp add: preserves_refl)
  note v = valid_tree_valid [OF vn]
  consider
    (double) l x where "op n = OpMinus" "left n = Some l" "right n = None" "valid_tree l"
      "op l = OpMinus" "left l = Some x" "right l = None" "valid_tree x"
  | (power) l r x where "op n = OpPow" "left n = Some l" "right n = Some r" "valid_tree l"
      "valid_tree r" "op l = OpMinus" "left l = Some x" "right l = None" "valid_tree x"
  | (rules) "(if op n = OpMinus then left_op_is n OpMinus else Inr False) = Inr False"
      "(if op n = OpPow then left_op_is n OpMinus else Inr False) = Inr False"
  proof (cases "op n = OpMinus \<or> op n = OpPow")
    case False
    then show ?thesis by (intro rules) auto
  next
    case True
    then have "unary (op n) \<or> binary (op n)" by (auto simp: unary_def binary_def)
    then obtain l where l: "left n = Some l" "valid_tree l"
      using vn by (auto elim: valid_tree_unary valid_tree_binary)
    show ?thesis
    proof (cases "op l = OpMinus")
      case False
      then show ?thesis using l by (intro rules) (auto simp: left_op_is_def)
    next
      case lm: True
      then have "unary (op l)" by (simp add: unary_def)
      then obtain x where x: "left l = Some x" "right l = None" "valid_tree x"
        using l(2) by (auto elim: valid_tree_unary)
      from True show ?thesis
      proof
        assume m: "op n = OpMinus"
        then have "unary (op n)" by (simp add: unary_def)
        then have "right n = None" using vn l by (auto elim: valid_tree_unary)
        then show ?thesis using m l lm x by (intro double)
      next
        assume p: "op n = OpPow"
        then have "binary (op n)" by (simp add: binary_def)
        then obtain r where "right n = Some r" "valid_tree r"
          using vn by (auto elim: valid_tree_binary)
        then show ?thesis using p l lm x by (intro power)
      qed
    qed
  qed
  then show ?thesis
  proof cases
    case double
    have wl: "weight l = Suc (weight x)" and wn: "weight n = Suc (weight l)"
      using double by (auto intro: weight_unary)
    have "good rt S x" using double wl wn by (intro gb) auto
    then obtain a ca where Sx: "S x = Some (Inr (a, ca))" and va: "valid_tree a"
      and wa: "weight a \<le> weight x" and pa: "preserves rt x a"
      by (rule goodE) blast
    have "Simplify_n1 S n = Some (Inr (a, True))"
      using double Sx by (simp add: Simplify_n1_def left_op_is_def call_def andThen_simps)
    moreover have "preserves rt n a"
      unfolding preserves_def
    proof (intro allI impI)
      fix v' assume e: "Eval_with rt n = Inr v'"
      have un: "unary (op n)" "unary (op l)" using double by (simp_all add: unary_def)
      from e obtain lv where "Eval_with rt l = Inr lv" "PerformUnary_with rt lv OpMinus = Inr v'"
        using Eval_with_unary [OF v un(1) double(2)] double(1) by (auto split: sum.splits)
      moreover from this obtain xv where "Eval_with rt x = Inr xv" "PerformUnary_with rt xv OpMinus = Inr lv"
        using Eval_with_unary [OF valid_tree_valid [OF double(4)] un(2) double(6)] double(5)
        by (auto split: sum.splits)
      ultimately have "Eval_with rt x = Inr v'"
        by (auto dest!: minus_value)
      then show "Eval_with rt a = Inr v'" using pa by (simp add: preserves_def)
    qed
    ultimately show ?thesis
      using va wa wl wn by (intro exI [of _ a] exI [of _ True]) simp
  next
    case power
    have bn: "binary (op n)" and ul: "unary (op l)"
      using power by (simp_all add: binary_def unary_def)
    have wl: "weight l = Suc (weight x)"
      using power by (auto intro: weight_unary)
    have wn: "weight n = weight l * weight r + weight r"
      using power by (auto intro: weight_binary)
    note head = Simplify_n1_def left_op_is_def call_def power(1,2,3,6,7)
    from Eval_valid_tree [OF power(5)] show ?thesis
    proof (elim disjE exE)
      fix m assume "Eval r = Inl (Errorf m)"
      then show ?thesis by (intro same) (simp add: head)
    next
      fix q assume er: "Eval r = Inr (Some q)"
      show ?thesis
      proof (cases "rational_Even q")
        case False
        then show ?thesis by (intro same) (simp add: head er Even_def)
      next
        case True
        have "weight x < weight n" "weight r < weight n"
          using binary_weight_children [OF weight_ge2 [of l] weight_ge2 [of r]] wl wn by auto
        then have "good rt S x" "good rt S r" using power by (auto intro!: gb)
        then obtain a ca b cb where
          Sx: "S x = Some (Inr (a, ca))" "valid_tree a" "weight a \<le> weight x" "preserves rt x a"
          and Sr: "S r = Some (Inr (b, cb))" "valid_tree b" "weight b \<le> weight r" "preserves rt r b"
          by (elim goodE) blast
        define n1 where "n1 = Node (Some a) (Some b) None OpPow"
        have vn1: "valid_tree n1"
          unfolding n1_def using Sx(2) Sr(2) by (intro valid_tree_binaryI) (simp add: binary_def)
        have "weight a * weight b \<le> weight x * weight r"
          using Sx(3) Sr(3) by (rule mult_le_mono)
        moreover have "0 < weight r" using weight_ge2 [of r] by simp
        ultimately have "weight n1 < weight n"
          using Sr(3) by (simp add: n1_def wn wl)
        moreover have "Simplify_n1 S n = Some (Inr (n1, True))"
          by (simp add: head er Even_def True Sx(1) Sr(1) andThen_simps n1_def)
        moreover have "preserves rt n n1"
          unfolding preserves_def
        proof (intro allI impI)
          fix v' assume "Eval_with rt n = Inr v'"
          then obtain lv rv where el: "Eval_with rt l = Inr lv" and er': "Eval_with rt r = Inr rv"
            and pv': "PerformBinary lv OpPow rv = Inr v'"
            using Eval_with_binary [OF v bn power(2,3)] power(1) by (auto split: sum.splits)
          have rv: "rv = Some q"
            using ad er er' by (rule guard_value)
          have pv: "PerformBinary lv OpPow (Some q) = Inr v'"
            using pv' rv by simp
          from el obtain xv where ex: "Eval_with rt x = Inr xv" and "PerformUnary_with rt xv OpMinus = Inr lv"
            using Eval_with_unary [OF valid_tree_valid [OF power(4)] ul power(7)] power(6)
            by (auto split: sum.splits)
          then obtain xq where xq: "xv = Some xq" "lv = Some (- xq)"
            by (auto dest!: minus_value)
          have "PerformBinary xv OpPow (Some q) = Inr v'"
            using pv True by (simp add: xq PerformBinary_def rational_PerformBinary_def
                rational_pow_minus)
          moreover have "Eval_with rt a = Inr xv" "Eval_with rt b = Inr (Some q)"
            using Sx(4) Sr(4) ex er' rv by (auto simp: preserves_def)
          ultimately show "Eval_with rt n1 = Inr v'"
            using Eval_with_binary [OF valid_tree_valid [OF vn1], of a b]
            by (simp add: n1_def binary_def)
        qed
        ultimately show ?thesis
          using vn1 by (intro exI [of _ n1] exI [of _ True]) simp
      qed
    qed
  next
    case rules
    have head: "Simplify_n1 S n =
        andThen (duoLoop S duoTable (n, False)) (\<lambda>st.
          andThen (trioLoop S trioTable st) (\<lambda>(n1, ch).
            if ch then Some (Inr (n1, True))
            else
              andThen (child S (left n)) (\<lambda>(l, cl).
                andThen (child S (right n)) (\<lambda>(r, cr).
                  if cl \<or> cr then Some (Inr (Node l r (val n) (op n), True))
                  else Some (Inr (n, False))))))"
      unfolding Simplify_n1_def rules by simp
    have "\<exists>n1 c1. duoLoop S duoTable (n, False) = Some (Inr (n1, c1)) \<and> valid_tree n1
                \<and> weight n1 \<le> weight n
                \<and> (if c1 then False \<or> weight n1 < weight n else \<not> False \<and> n1 = n)
                \<and> preserves rt n n1"
      by (rule duoLoop_steps [OF gb vn order_refl duoTable_shape duoTable_sound [OF ad]])
    then obtain n1 c1 where d: "duoLoop S duoTable (n, False) = Some (Inr (n1, c1))"
      and v1: "valid_tree n1" and w1: "weight n1 \<le> weight n"
      and f1': "if c1 then False \<or> weight n1 < weight n else \<not> False \<and> n1 = n"
      and p1: "preserves rt n n1"
      by blast
    have f1: "if c1 then weight n1 < weight n else n1 = n"
      using f1' by (cases c1) simp_all
    have "\<exists>n2 c2. trioLoop S trioTable (n1, c1) = Some (Inr (n2, c2)) \<and> valid_tree n2
                \<and> weight n2 \<le> weight n1
                \<and> (if c2 then c1 \<or> weight n2 < weight n1 else \<not> c1 \<and> n2 = n1)
                \<and> preserves rt n1 n2"
      by (rule trioLoop_steps [OF gb v1 w1 trioTable_shape trioTable_sound])
    then obtain n2 c2 where t: "trioLoop S trioTable (n1, c1) = Some (Inr (n2, c2))"
      and v2: "valid_tree n2" and w2: "weight n2 \<le> weight n1"
      and f2: "if c2 then c1 \<or> weight n2 < weight n1 else \<not> c1 \<and> n2 = n1"
      and p2: "preserves rt n1 n2"
      by blast
    show ?thesis
    proof (cases c2)
      case True
      then have "Simplify_n1 S n = Some (Inr (n2, True))"
        by (simp add: head d t andThen_simps)
      moreover have "weight n2 < weight n"
        using True f1 f2 w1 w2 by (auto split: if_splits)
      ultimately show ?thesis
        using v2 p1 p2 by (intro exI [of _ n2] exI [of _ True]) (auto intro: preserves_trans)
    next
      case False
      then have h2: "Simplify_n1 S n =
          andThen (child S (left n)) (\<lambda>(l, cl).
            andThen (child S (right n)) (\<lambda>(r, cr).
              if cl \<or> cr then Some (Inr (Node l r (val n) (op n), True))
              else Some (Inr (n, False))))"
        by (simp add: head d t andThen_simps)
      from valid_shape [OF v] show ?thesis
      proof (elim disjE conjE exE)
        assume "left n = None" "right n = None"
        then show ?thesis by (intro same) (simp add: h2 child_None andThen_simps)
      next
        fix l assume u: "unary (op n)" and l: "left n = Some l" "right n = None"
        have wn: "weight n = Suc (weight l)" using l by (rule weight_unary)
        have "good rt S l" using vn l wn by (intro gb) (auto dest: valid_tree_left)
        from child_good [OF this] obtain l' cl where
          c: "child S (Some l) = Some (Inr (Some l', cl))" and vl: "valid_tree l'"
          and fl: "if cl then weight l' < weight l else l' = l" and pl: "preserves rt l l'"
          by blast
        show ?thesis
        proof (cases cl)
          case False
          then show ?thesis by (intro same) (simp add: h2 l c andThen_simps child_None)
        next
          case True
          define n' where "n' = Node (Some l') None (val n) (op n)"
          have vn': "valid_tree n'"
            unfolding n'_def using u vl by (rule valid_tree_unaryI)
          have "Simplify_n1 S n = Some (Inr (n', True))"
            using True by (simp add: h2 l c andThen_simps child_None n'_def)
          moreover have "weight n' < weight n"
            using True fl by (simp add: n'_def wn)
          moreover have "preserves rt n n'"
            using pl Eval_with_unary [OF v u l(1)] Eval_with_unary [OF valid_tree_valid [OF vn'], of l'] u
            by (auto simp: preserves_def n'_def split: sum.splits)
          ultimately show ?thesis
            using vn' by (intro exI [of _ n'] exI [of _ True]) simp
        qed
      next
        fix l r assume b: "binary (op n)" and lr: "left n = Some l" "right n = Some r"
        have wn: "weight n = weight l * weight r + weight r" using lr by (rule weight_binary)
        have "weight l < weight n" "weight r < weight n"
          unfolding wn by (rule binary_weight_children [OF weight_ge2 weight_ge2])+
        then have "good rt S l" "good rt S r"
          using vn lr by (auto intro!: gb dest: valid_tree_left valid_tree_right)
        from child_good [OF this(1)] child_good [OF this(2)] obtain l' cl r' cr where
          cl: "child S (Some l) = Some (Inr (Some l', cl))" and vl: "valid_tree l'"
          and wl: "weight l' \<le> weight l"
          and fl: "if cl then weight l' < weight l else l' = l" and pl: "preserves rt l l'"
          and cr: "child S (Some r) = Some (Inr (Some r', cr))" and vr: "valid_tree r'"
          and wr: "weight r' \<le> weight r"
          and fr: "if cr then weight r' < weight r else r' = r" and pr: "preserves rt r r'"
          by blast
        show ?thesis
        proof (cases "cl \<or> cr")
          case False
          then show ?thesis by (intro same) (simp add: h2 lr cl cr andThen_simps)
        next
          case True
          define n' where "n' = Node (Some l') (Some r') (val n) (op n)"
          have vn': "valid_tree n'"
            unfolding n'_def using b vl vr by (rule valid_tree_binaryI)
          have "Simplify_n1 S n = Some (Inr (n', True))"
            using True by (simp add: h2 lr cl cr andThen_simps n'_def)
          moreover have "weight l' < weight l \<or> weight r' < weight r"
            using True fl fr by (auto split: if_splits)
          then have "weight n' < weight n"
            unfolding wn using wl wr weight_ge2 [of r']
            by (simp add: n'_def) (intro weight_strict, auto)
          moreover have "preserves rt n n'"
            using pl pr Eval_with_binary [OF v b lr] Eval_with_binary [OF valid_tree_valid [OF vn'], of l' r'] b
            by (auto simp: preserves_def n'_def split: sum.splits)
          ultimately show ?thesis
            using vn' by (intro exI [of _ n'] exI [of _ True]) simp
        qed
      qed
    qed
  qed
qed

lemma Simplify_good_with:
  assumes ad: "admissible rt"
  shows "valid_tree n \<Longrightarrow> good rt Simplify n"
proof (induction "weight n" arbitrary: n rule: less_induct)
  case less
  have gb: "good rt Simplify x" if "valid_tree x" "weight x < weight n" for x
    using that less.hyps by blast
  from Simplify_n1_step [where n = n and S = Simplify, OF ad gb less.prems]
  obtain n1 ch where s: "Simplify_n1 Simplify n = Some (Inr (n1, ch))" and v1: "valid_tree n1"
    and f1: "if ch then weight n1 < weight n else n1 = n" and p1: "preserves rt n n1"
    by blast
  show ?case
  proof (cases ch)
    case False
    have "Simplify n = Some (Inr (n, False))"
      by (subst Simplify_unfold) (simp add: s False andThen_simps)
    then show ?thesis
      unfolding good_def using less.prems
      by (intro exI [of _ n] exI [of _ False]) (simp add: preserves_refl)
  next
    case True
    then have w1: "weight n1 < weight n" using f1 by simp
    from gb [OF v1 w1] obtain r c where r: "Simplify n1 = Some (Inr (r, c))" "valid_tree r"
      "weight r \<le> weight n1" "preserves rt n1 r" "Simplify r = Some (Inr (r, False))"
      by (rule goodE) blast
    have "Simplify n = Some (Inr (r, True))"
      by (subst Simplify_unfold) (simp add: s True r(1) andThen_simps)
    then show ?thesis
      unfolding good_def using r w1 p1
      by (intro exI [of _ r] exI [of _ True]) (auto intro: preserves_trans)
  qed
qed

lemma Simplify_good: "valid_tree n \<Longrightarrow> good rational_root Simplify n"
  using admissible_root by (rule Simplify_good_with)

section \<open>Properties of the canonical form\<close>

text \<open>Every node of a tree, the root first; shorthands for the nodes of the examples.\<close>

fun nodes :: "Node \<Rightarrow> Node list" where
  "nodes (Node l r v p) =
     Node l r v p # (case l of None \<Rightarrow> [] | Some a \<Rightarrow> nodes a) @ (case r of None \<Rightarrow> [] | Some b \<Rightarrow> nodes b)"

abbreviation unaryNode :: "Op \<Rightarrow> Node \<Rightarrow> Node" where
  "unaryNode p a \<equiv> Node (Some a) None None p"

abbreviation binaryNode :: "Op \<Rightarrow> Node \<Rightarrow> Node \<Rightarrow> Node" where
  "binaryNode p a b \<equiv> Node (Some a) (Some b) None p"

lemma valid_tree_nodes: "valid_tree t \<Longrightarrow> list_all valid (nodes t)"
proof (induction t)
  case (Node l r v p)
  have "list_all valid (nodes a)" if "l = Some a" for a
    using that Node.IH(1) [of a] valid_tree_left [OF Node.prems, of a] by simp
  moreover have "list_all valid (nodes b)" if "r = Some b" for b
    using that Node.IH(2) [of b] valid_tree_right [OF Node.prems, of b] by simp
  ultimately show ?case
    using valid_tree_valid [OF Node.prems] by (auto split: option.splits)
qed

declare Equal.simps [simp del]

lemma Equal_refl: "valid_tree t \<Longrightarrow> Equal (Some t) (Some t) = Inr True"
proof (induction "size t" arbitrary: t rule: less_induct)
  case less
  note v = valid_tree_valid [OF less.prems]
  have ih: "Equal (Some c) (Some c) = Inr True" if "left t = Some c \<or> right t = Some c" for c
  proof (rule less.hyps)
    show "size c < size t" using that by (auto simp: size_left size_right)
    show "valid_tree c" using that less.prems by (auto dest: valid_tree_left valid_tree_right)
  qed
  from valid_shape [OF v] show ?case
  proof (elim disjE conjE exE)
    assume "op t = OpNull"
    then show ?thesis
      using valid_tree_val [OF less.prems]
      by (subst Equal.simps) (auto simp: Value_Equal_def)
  next
    fix l r assume b: "binary (op t)" and lr: "left t = Some l" "right t = Some r"
    show ?thesis
      using b ih [of l] ih [of r] by (subst Equal.simps) (simp add: lr op_kinds)
  next
    fix l assume u: "unary (op t)" and l: "left t = Some l" "right t = None"
    show ?thesis
      using u ih [of l] by (subst Equal.simps) (simp add: l op_kinds)
  qed
qed

lemmas valid_tree_defs = valid_tree.simps valid_def newIntNode_def

text \<open>
  C9. For a well-formed tree the canonicalizer returns, and the tree it returns is well
  formed: every node of it passes \<open>valid\<close>, although \<open>Simplify\<close>, \<open>transformDuo\<close> and
  \<open>transformTrio\<close> build their nodes by struct literals and not by \<open>newNode\<close>.
\<close>

theorem C9_canonical_form_valid:
  assumes "valid_tree t"
  shows "\<exists>r c. Simplify t = Some (Inr (r, c)) \<and> valid_tree r \<and> list_all valid (nodes r)"
proof -
  from Simplify_good [OF assms] obtain r c where "Simplify t = Some (Inr (r, c))" "valid_tree r"
    by (rule goodE) blast
  then show ?thesis
    by (auto intro: valid_tree_nodes)
qed

theorem C9_canonical_form_valid_witness:
  "valid_tree (binaryNode OpMul (unaryNode OpSqrt (newIntNode 4)) (unaryNode OpSqrt (newIntNode 9)))
   \<and> Simplify (binaryNode OpMul (unaryNode OpSqrt (newIntNode 4)) (unaryNode OpSqrt (newIntNode 9)))
       = Some (Inr (unaryNode OpSqrt (binaryNode OpMul (newIntNode 4) (newIntNode 9)), True))
   \<and> valid_tree (unaryNode OpSqrt (binaryNode OpMul (newIntNode 4) (newIntNode 9)))
   \<and> list_all valid (nodes (unaryNode OpSqrt (binaryNode OpMul (newIntNode 4) (newIntNode 9))))"
proof -
  have h: "valid_tree (binaryNode OpMul (unaryNode OpSqrt (newIntNode 4))
                         (unaryNode OpSqrt (newIntNode 9)))"
    by (simp add: valid_tree_defs)
  have s: "Simplify (binaryNode OpMul (unaryNode OpSqrt (newIntNode 4)) (unaryNode OpSqrt (newIntNode 9)))
       = Some (Inr (unaryNode OpSqrt (binaryNode OpMul (newIntNode 4) (newIntNode 9)), True))"
    by (simp add: Simplify.simps simplify_defs cong: andThen_cong_weak)
  show ?thesis
    using h C9_canonical_form_valid [OF h] by (simp add: s)
qed

text \<open>
  C3. For a well-formed tree \<open>t\<close> the canonicalizer returns a tree \<open>r\<close>; called on \<open>r\<close>
  it returns \<open>r\<close> itself, the same pointer, which \<open>Equal\<close> finds structurally equal
  to \<open>r\<close>.
\<close>

theorem C3_idempotent:
  assumes "valid_tree t"
  shows "\<exists>r c. Simplify t = Some (Inr (r, c)) \<and> Simplify r = Some (Inr (r, False))
               \<and> Equal (Some r) (Some r) = Inr True"
proof -
  from Simplify_good [OF assms] obtain r c where "Simplify t = Some (Inr (r, c))" "valid_tree r"
    "Simplify r = Some (Inr (r, False))"
    by (rule goodE) blast
  with Equal_refl [of r] show ?thesis
    by blast
qed

theorem C3_idempotent_witness:
  "valid_tree (binaryNode OpAdd (newIntNode 1) (binaryNode OpAdd (unaryNode OpMinus (newIntNode 2))
                                                  (newIntNode 3)))
   \<and> Simplify (binaryNode OpAdd (newIntNode 1) (binaryNode OpAdd (unaryNode OpMinus (newIntNode 2))
                                                  (newIntNode 3)))
       = Some (Inr (binaryNode OpAdd (binaryNode OpSub (newIntNode 1) (newIntNode 2)) (newIntNode 3), True))
   \<and> Simplify (binaryNode OpAdd (binaryNode OpSub (newIntNode 1) (newIntNode 2)) (newIntNode 3))
       = Some (Inr (binaryNode OpAdd (binaryNode OpSub (newIntNode 1) (newIntNode 2)) (newIntNode 3), False))
   \<and> Equal (Some (binaryNode OpAdd (binaryNode OpSub (newIntNode 1) (newIntNode 2)) (newIntNode 3)))
           (Some (binaryNode OpAdd (binaryNode OpSub (newIntNode 1) (newIntNode 2)) (newIntNode 3)))
       = Inr True"
proof -
  have h: "valid_tree (binaryNode OpAdd (newIntNode 1)
                         (binaryNode OpAdd (unaryNode OpMinus (newIntNode 2)) (newIntNode 3)))"
    by (simp add: valid_tree_defs)
  have s: "Simplify (binaryNode OpAdd (newIntNode 1) (binaryNode OpAdd (unaryNode OpMinus (newIntNode 2))
                                                  (newIntNode 3)))
       = Some (Inr (binaryNode OpAdd (binaryNode OpSub (newIntNode 1) (newIntNode 2)) (newIntNode 3), True))"
    by (simp add: Simplify.simps simplify_defs cong: andThen_cong_weak)
  show ?thesis
    using h C3_idempotent [OF h] by (simp add: s)
qed








section \<open>The even power of a negation\<close>

lemma Simplify_returns:
  assumes "valid_tree n"
  shows "\<exists>r c. Simplify n = Some (Inr (r, c)) \<and> valid_tree r"
proof -
  from Simplify_good [OF assms] obtain r c where "Simplify n = Some (Inr (r, c))" "valid_tree r"
    by (rule goodE) blast
  then show ?thesis by blast
qed

lemma power_of_minus_untouched:
  assumes "valid_tree n" "op n = OpPow" "left n = Some l" "op l = OpMinus" "right n = Some e"
    and odd: "\<And>q. Eval e = Inr (Some q) \<Longrightarrow> \<not> rational_Even q"
  shows "Simplify n = Some (Inr (n, False))"
proof -
  have ve: "valid_tree e" using assms(1,5) by (rule valid_tree_right)
  have "Simplify_n1 Simplify n = Some (Inr (n, False))"
    using Eval_valid_tree [OF ve] odd
    by (auto simp: Simplify_n1_def left_op_is_def assms(2-5) Even_def)
  then show ?thesis
    by (subst Simplify_unfold) (simp add: andThen_simps)
qed

lemma power_of_minus_rewritten:
  assumes "op n = OpPow" "left n = Some l" "op l = OpMinus" "left l = Some x" "right n = Some e"
    and "Eval e = Inr (Some q)" "rational_Even q"
    and "Simplify x = Some (Inr (a, ca))" "Simplify e = Some (Inr (b, cb))"
    and "Simplify (Node (Some a) (Some b) None OpPow) = Some (Inr (r, c))"
  shows "Simplify n = Some (Inr (r, True))"
proof -
  have "Simplify_n1 Simplify n = Some (Inr (Node (Some a) (Some b) None OpPow, True))"
    by (simp add: Simplify_n1_def left_op_is_def call_def assms Even_def andThen_simps)
  then show ?thesis
    by (subst Simplify_unfold) (simp add: andThen_simps assms(10))
qed

text \<open>
  C6. At a power whose base is a unary minus, \<open>(--x) ^ e\<close>: when the exponent evaluates
  to an even rational, the canonical form is that of \<open>x' ^ e'\<close>, for the canonical forms
  \<open>x'\<close> of \<open>x\<close> and \<open>e'\<close> of \<open>e\<close>; when the exponent does not evaluate to an even
  rational (its evaluation fails, or its value is not even) the node is returned as it
  is, the same pointer. In either case \<open>Simplify\<close> returns a node, no error. The
  canonical form of \<open>^ -- 2 4\<close> is the tree of \<open>^ 2 4\<close>, and \<open>^ -- 2 3\<close> is returned as
  it is.
\<close>

theorem C6_even_power_of_negation:
  assumes "valid_tree n" "op n = OpPow" "left n = Some l" "op l = OpMinus" "left l = Some x"
    "right n = Some e"
  shows "(\<forall>q. Eval e = Inr (Some q) \<and> rational_Even q \<longrightarrow>
            (\<exists>x' cx e' ce r c.
               Simplify x = Some (Inr (x', cx)) \<and> Simplify e = Some (Inr (e', ce))
               \<and> Simplify (binaryNode OpPow x' e') = Some (Inr (r, c))
               \<and> Simplify n = Some (Inr (r, True))))
         \<and> ((\<forall>q. Eval e = Inr (Some q) \<longrightarrow> \<not> rational_Even q) \<longrightarrow>
               Simplify n = Some (Inr (n, False)))
         \<and> (\<exists>r c. Simplify n = Some (Inr (r, c)))
         \<and> FromPolish ''^ -- 2 4'' = Some (Inr (binaryNode OpPow (unaryNode OpMinus (newIntNode 2)) (newIntNode 4)))
         \<and> FromPolish ''^ 2 4'' = Some (Inr (binaryNode OpPow (newIntNode 2) (newIntNode 4)))
         \<and> Simplify (binaryNode OpPow (unaryNode OpMinus (newIntNode 2)) (newIntNode 4))
             = Some (Inr (binaryNode OpPow (newIntNode 2) (newIntNode 4), True))
         \<and> FromPolish ''^ -- 2 3'' = Some (Inr (binaryNode OpPow (unaryNode OpMinus (newIntNode 2)) (newIntNode 3)))
         \<and> Simplify (binaryNode OpPow (unaryNode OpMinus (newIntNode 2)) (newIntNode 3))
             = Some (Inr (binaryNode OpPow (unaryNode OpMinus (newIntNode 2)) (newIntNode 3), False))"
proof -
  have vl: "valid_tree l" using assms(1,3) by (rule valid_tree_left)
  have vx: "valid_tree x" using vl assms(5) by (rule valid_tree_left)
  have ve: "valid_tree e" using assms(1,6) by (rule valid_tree_right)
  have even: "\<exists>x' cx e' ce r c.
               Simplify x = Some (Inr (x', cx)) \<and> Simplify e = Some (Inr (e', ce))
               \<and> Simplify (binaryNode OpPow x' e') = Some (Inr (r, c))
               \<and> Simplify n = Some (Inr (r, True))"
    if q: "Eval e = Inr (Some q)" "rational_Even q" for q
  proof -
    from Simplify_returns [OF vx] obtain x' cx where x': "Simplify x = Some (Inr (x', cx))"
      "valid_tree x'" by blast
    from Simplify_returns [OF ve] obtain e' ce where e': "Simplify e = Some (Inr (e', ce))"
      "valid_tree e'" by blast
    have "valid_tree (binaryNode OpPow x' e')"
      using x'(2) e'(2) by (intro valid_tree_binaryI) (simp add: binary_def)
    from Simplify_returns [OF this] obtain r c where
      r: "Simplify (binaryNode OpPow x' e') = Some (Inr (r, c))" by blast
    have "Simplify n = Some (Inr (r, True))"
      using assms(2-6) q x'(1) e'(1) r by (rule power_of_minus_rewritten)
    with x'(1) e'(1) r show ?thesis by blast
  qed
  have odd: "Simplify n = Some (Inr (n, False))"
    if "\<forall>q. Eval e = Inr (Some q) \<longrightarrow> \<not> rational_Even q"
    using assms(1-4,6) that by (intro power_of_minus_untouched) auto
  have ret: "\<exists>r c. Simplify n = Some (Inr (r, c))"
    using Simplify_returns [OF assms(1)] by blast
  have p1: "FromPolish ''^ -- 2 4'' = Some (Inr (binaryNode OpPow (unaryNode OpMinus (newIntNode 2)) (newIntNode 4)))"
    by (simp add: parseNodeFromString.simps parse_defs)
  have p2: "FromPolish ''^ 2 4'' = Some (Inr (binaryNode OpPow (newIntNode 2) (newIntNode 4)))"
    by (simp add: parseNodeFromString.simps parse_defs)
  have p3: "FromPolish ''^ -- 2 3'' = Some (Inr (binaryNode OpPow (unaryNode OpMinus (newIntNode 2)) (newIntNode 3)))"
    by (simp add: parseNodeFromString.simps parse_defs)
  have s1: "Simplify (binaryNode OpPow (unaryNode OpMinus (newIntNode 2)) (newIntNode 4))
             = Some (Inr (binaryNode OpPow (newIntNode 2) (newIntNode 4), True))"
    by (simp add: Simplify.simps simplify_defs cong: andThen_cong_weak)
  have s2: "Simplify (binaryNode OpPow (unaryNode OpMinus (newIntNode 2)) (newIntNode 3))
             = Some (Inr (binaryNode OpPow (unaryNode OpMinus (newIntNode 2)) (newIntNode 3), False))"
    by (simp add: Simplify.simps simplify_defs cong: andThen_cong_weak)
  show ?thesis
    using even odd ret p1 p2 p3 s1 s2 by blast
qed

theorem C6_even_power_of_negation_witness:
  "valid_tree (binaryNode OpPow (unaryNode OpMinus (unaryNode OpMinus (unaryNode OpMinus (newIntNode 2))))
                 (binaryNode OpDiv (newIntNode 1) (newIntNode 0)))
   \<and> Eval (binaryNode OpDiv (newIntNode 1) (newIntNode 0))
       = Inl (Errorf ''arithmetic error: division by zero'')
   \<and> Simplify (binaryNode OpPow (unaryNode OpMinus (unaryNode OpMinus (unaryNode OpMinus (newIntNode 2))))
                 (binaryNode OpDiv (newIntNode 1) (newIntNode 0)))
       = Some (Inr (binaryNode OpPow (unaryNode OpMinus (unaryNode OpMinus (unaryNode OpMinus (newIntNode 2))))
                      (binaryNode OpDiv (newIntNode 1) (newIntNode 0)), False))
   \<and> valid_tree (binaryNode OpPow (unaryNode OpMinus (newIntNode 2)) (newIntNode 4))
   \<and> Eval (newIntNode 4) = Inr (Some 4) \<and> rational_Even 4
   \<and> Simplify (binaryNode OpPow (unaryNode OpMinus (newIntNode 2)) (newIntNode 4))
       = Some (Inr (binaryNode OpPow (newIntNode 2) (newIntNode 4), True))"
proof -
  have h1: "valid_tree (binaryNode OpPow (unaryNode OpMinus (unaryNode OpMinus (unaryNode OpMinus (newIntNode 2))))
                 (binaryNode OpDiv (newIntNode 1) (newIntNode 0)))"
    by (simp add: valid_tree_defs)
  have e1: "Eval (binaryNode OpDiv (newIntNode 1) (newIntNode 0))
       = Inl (Errorf ''arithmetic error: division by zero'')"
    by (simp add: eval_defs)
  have h2: "valid_tree (binaryNode OpPow (unaryNode OpMinus (newIntNode 2)) (newIntNode 4))"
    by (simp add: valid_tree_defs)
  have e2: "Eval (newIntNode 4) = Inr (Some 4)" "rational_Even 4"
    by (simp_all add: eval_defs rational_Even_def is_integer_def)
  have s: "Simplify (newIntNode 2) = Some (Inr (newIntNode 2, False))"
    "Simplify (newIntNode 4) = Some (Inr (newIntNode 4, False))"
    "Simplify (binaryNode OpPow (newIntNode 2) (newIntNode 4))
       = Some (Inr (binaryNode OpPow (newIntNode 2) (newIntNode 4), False))"
    by (simp_all add: Simplify.simps simplify_defs cong: andThen_cong_weak)
  show ?thesis
    using C6_even_power_of_negation [OF h1,
        where l = "unaryNode OpMinus (unaryNode OpMinus (unaryNode OpMinus (newIntNode 2)))"
          and x = "unaryNode OpMinus (unaryNode OpMinus (newIntNode 2))"
          and e = "binaryNode OpDiv (newIntNode 1) (newIntNode 0)"]
      C6_even_power_of_negation [OF h2, where l = "unaryNode OpMinus (newIntNode 2)"
          and x = "newIntNode 2" and e = "newIntNode 4"]
      h1 h2 e1 e2 s
    by simp
qed

section \<open>A root that no rule rewrites\<close>

text \<open>
  No row of the table rewrites \<open>n\<close>: every call of the loop returns the pointer \<open>n\<close>.
\<close>

definition duoUnchanged :: "Node \<Rightarrow> bool" where
  "duoUnchanged n =
     list_all (\<lambda>(op1, op2, op3, op4, op5).
       transformDuo Simplify n op1 op2 op3 op4 op5 = Some (Inr (n, False))) duoTable"

definition trioUnchanged :: "Node \<Rightarrow> bool" where
  "trioUnchanged n =
     list_all (\<lambda>(op1, op2, op3, op4).
       transformTrio Simplify n op1 op2 op3 op4 = Some (Inr (n, False))) trioTable"

lemma duoLoop_unchanged:
  assumes "list_all (\<lambda>(op1, op2, op3, op4, op5).
             transformDuo S n op1 op2 op3 op4 op5 = Some (Inr (n, False))) ts"
  shows "duoLoop S ts (n, ch) = Some (Inr (n, ch))"
  using assms by (induction ts) (auto simp: andThen_simps)

lemma trioLoop_unchanged:
  assumes "list_all (\<lambda>(op1, op2, op3, op4).
             transformTrio S n op1 op2 op3 op4 = Some (Inr (n, False))) ts"
  shows "trioLoop S ts (n, ch) = Some (Inr (n, ch))"
  using assms by (induction ts) (auto simp: andThen_simps)

lemma child_returns:
  assumes "valid_tree n"
  shows "\<exists>l' cl. child Simplify (left n) = Some (Inr (l', cl))"
    and "\<exists>r' cr. child Simplify (right n) = Some (Inr (r', cr))"
proof -
  show "\<exists>l' cl. child Simplify (left n) = Some (Inr (l', cl))"
  proof (cases "left n")
    case (Some l)
    then have "good rational_root Simplify l" using assms by (intro Simplify_good) (rule valid_tree_left)
    from child_good [OF this] show ?thesis unfolding Some by blast
  qed (auto simp: child_None)
  show "\<exists>r' cr. child Simplify (right n) = Some (Inr (r', cr))"
  proof (cases "right n")
    case (Some r)
    then have "good rational_root Simplify r" using assms by (intro Simplify_good) (rule valid_tree_right)
    from child_good [OF this] show ?thesis unfolding Some by blast
  qed (auto simp: child_None)
qed

lemma rebuilt_valid:
  assumes "valid_tree n" "child Simplify (left n) = Some (Inr (l', cl))"
    "child Simplify (right n) = Some (Inr (r', cr))"
  shows "valid_tree (Node l' r' (val n) (op n))"
proof -
  have l: "(left n = None \<and> l' = None) \<or> (\<exists>a. left n \<noteq> None \<and> l' = Some a \<and> valid_tree a)"
  proof (cases "left n")
    case None
    then show ?thesis using assms(2) by (simp add: child_None)
  next
    case (Some l)
    then have "good rational_root Simplify l" using assms(1) by (intro Simplify_good) (rule valid_tree_left)
    from child_good [OF this] show ?thesis using assms(2) Some by auto
  qed
  have r: "(right n = None \<and> r' = None) \<or> (\<exists>b. right n \<noteq> None \<and> r' = Some b \<and> valid_tree b)"
  proof (cases "right n")
    case None
    then show ?thesis using assms(3) by (simp add: child_None)
  next
    case (Some r)
    then have "good rational_root Simplify r" using assms(1) by (intro Simplify_good) (rule valid_tree_right)
    from child_good [OF this] show ?thesis using assms(3) Some by auto
  qed
  show ?thesis
    using l r valid_tree_valid [OF assms(1)] valid_tree_val [OF assms(1)]
    by (subst valid_tree.simps) (auto simp: valid_def)
qed

text \<open>
  C4, as the code has it. At a well-formed node that is neither a unary minus of a unary
  minus nor a power of a unary minus, and on which none of the 13 rows of \<open>transformDuo\<close>
  and none of the 4 rows of \<open>transformTrio\<close> returns a new node, the canonicalizer
  recurses into the children that exist. When neither child's canonical form is a new
  node, it returns the node itself. Otherwise it rebuilds the node (same operator, same
  value) over the children's canonical forms and returns the canonical form of the
  rebuilt node: the rules are tried again at the rebuilt node. A power of a unary minus
  whose exponent does not evaluate to an even rational is returned as it is, without
  recursion into its children.
\<close>

theorem C4_unrewritten_root:
  assumes "valid_tree n"
  shows "(\<not> (op n = OpMinus \<and> (\<exists>l. left n = Some l \<and> op l = OpMinus))
          \<and> \<not> (op n = OpPow \<and> (\<exists>l. left n = Some l \<and> op l = OpMinus))
          \<and> duoUnchanged n \<and> trioUnchanged n
          \<longrightarrow>
            (\<exists>l' cl r' cr.
               child Simplify (left n) = Some (Inr (l', cl))
               \<and> child Simplify (right n) = Some (Inr (r', cr))
               \<and> (if cl \<or> cr
                   then \<exists>r c. Simplify (Node l' r' (val n) (op n)) = Some (Inr (r, c))
                              \<and> Simplify n = Some (Inr (r, True))
                   else Simplify n = Some (Inr (n, False)))))
         \<and> (\<forall>l e. op n = OpPow \<and> left n = Some l \<and> op l = OpMinus \<and> right n = Some e
                   \<and> (\<forall>q. Eval e = Inr (Some q) \<longrightarrow> \<not> rational_Even q)
                \<longrightarrow> Simplify n = Some (Inr (n, False)))"
proof (intro conjI impI allI)
  fix l e
  assume "op n = OpPow \<and> left n = Some l \<and> op l = OpMinus \<and> right n = Some e
            \<and> (\<forall>q. Eval e = Inr (Some q) \<longrightarrow> \<not> rational_Even q)"
  then show "Simplify n = Some (Inr (n, False))"
    using assms by (intro power_of_minus_untouched [of n l e]) auto
next
  assume h: "\<not> (op n = OpMinus \<and> (\<exists>l. left n = Some l \<and> op l = OpMinus))
          \<and> \<not> (op n = OpPow \<and> (\<exists>l. left n = Some l \<and> op l = OpMinus))
          \<and> duoUnchanged n \<and> trioUnchanged n"
  have ln: "left n \<noteq> None" if "op n = OpMinus \<or> op n = OpPow"
    using that valid_tree_valid [OF assms] by (auto simp: valid_def)
  have c1: "(if op n = OpMinus then left_op_is n OpMinus else Inr False) = Inr False"
    using h ln by (auto simp: left_op_is_def)
  have c2: "(if op n = OpPow then left_op_is n OpMinus else Inr False) = Inr False"
    using h ln by (auto simp: left_op_is_def)
  from child_returns [OF assms] obtain l' cl r' cr where
    cl: "child Simplify (left n) = Some (Inr (l', cl))"
    and cr: "child Simplify (right n) = Some (Inr (r', cr))"
    by blast
  have n1: "Simplify_n1 Simplify n =
      (if cl \<or> cr then Some (Inr (Node l' r' (val n) (op n), True)) else Some (Inr (n, False)))"
    using h unfolding duoUnchanged_def trioUnchanged_def Simplify_n1_def c1 c2
    by (simp add: duoLoop_unchanged trioLoop_unchanged andThen_simps cl cr)
  have "if cl \<or> cr
        then \<exists>r c. Simplify (Node l' r' (val n) (op n)) = Some (Inr (r, c))
                   \<and> Simplify n = Some (Inr (r, True))
        else Simplify n = Some (Inr (n, False))"
  proof (cases "cl \<or> cr")
    case False
    then show ?thesis
      by (subst Simplify_unfold) (simp add: n1 andThen_simps)
  next
    case True
    from Simplify_returns [OF rebuilt_valid [OF assms cl cr]] obtain r c where
      r: "Simplify (Node l' r' (val n) (op n)) = Some (Inr (r, c))" by blast
    have "Simplify n = Some (Inr (r, True))"
      using True by (subst Simplify_unfold) (simp add: n1 andThen_simps r)
    with r True show ?thesis by auto
  qed
  with cl cr show "\<exists>l' cl r' cr.
               child Simplify (left n) = Some (Inr (l', cl))
               \<and> child Simplify (right n) = Some (Inr (r', cr))
               \<and> (if cl \<or> cr
                   then \<exists>r c. Simplify (Node l' r' (val n) (op n)) = Some (Inr (r, c))
                              \<and> Simplify n = Some (Inr (r, True))
                   else Simplify n = Some (Inr (n, False)))"
    by blast
qed

lemma newIntNode_sel:
  "op (newIntNode v) = OpNull" "left (newIntNode v) = None" "right (newIntNode v) = None"
  "val (newIntNode v) = Some (of_int v)"
  by (simp_all add: newIntNode_def)

theorem C4_unrewritten_root_witness:
  "valid_tree (binaryNode OpAdd (newIntNode 3)
                 (binaryNode OpMul (unaryNode OpMinus (newIntNode 2)) (newIntNode 5)))
   \<and> child Simplify (Some (newIntNode 3)) = Some (Inr (Some (newIntNode 3), False))
   \<and> child Simplify (Some (binaryNode OpMul (unaryNode OpMinus (newIntNode 2)) (newIntNode 5)))
       = Some (Inr (Some (unaryNode OpMinus (binaryNode OpMul (newIntNode 2) (newIntNode 5))), True))
   \<and> Simplify (Node (Some (newIntNode 3))
                 (Some (unaryNode OpMinus (binaryNode OpMul (newIntNode 2) (newIntNode 5)))) None OpAdd)
       = Some (Inr (binaryNode OpSub (newIntNode 3) (binaryNode OpMul (newIntNode 2) (newIntNode 5)), True))
   \<and> Simplify (binaryNode OpAdd (newIntNode 3)
                 (binaryNode OpMul (unaryNode OpMinus (newIntNode 2)) (newIntNode 5)))
       = Some (Inr (binaryNode OpSub (newIntNode 3) (binaryNode OpMul (newIntNode 2) (newIntNode 5)), True))"
proof -
  define n0 where "n0 = binaryNode OpAdd (newIntNode 3)
                 (binaryNode OpMul (unaryNode OpMinus (newIntNode 2)) (newIntNode 5))"
  have h: "valid_tree n0"
    by (simp add: n0_def valid_tree_defs)
  have s: "Simplify (newIntNode 3) = Some (Inr (newIntNode 3, False))"
    "Simplify (binaryNode OpMul (unaryNode OpMinus (newIntNode 2)) (newIntNode 5))
       = Some (Inr (unaryNode OpMinus (binaryNode OpMul (newIntNode 2) (newIntNode 5)), True))"
    "Simplify (Node (Some (newIntNode 3))
                 (Some (unaryNode OpMinus (binaryNode OpMul (newIntNode 2) (newIntNode 5)))) None OpAdd)
       = Some (Inr (binaryNode OpSub (newIntNode 3) (binaryNode OpMul (newIntNode 2) (newIntNode 5)), True))"
    by (simp_all add: Simplify.simps simplify_defs cong: andThen_cong_weak)
  have d: "duoUnchanged n0"
    by (simp add: duoUnchanged_def n0_def duoTable_def transformDuo_def operand_def s(1) andThen_simps newIntNode_sel)
  have t: "trioUnchanged n0"
    by (simp add: trioUnchanged_def n0_def trioTable_def transformTrio_def)
  have c: "child Simplify (left n0) = Some (Inr (Some (newIntNode 3), False))"
    "child Simplify (right n0)
       = Some (Inr (Some (unaryNode OpMinus (binaryNode OpMul (newIntNode 2) (newIntNode 5))), True))"
    by (simp_all add: n0_def child_def s andThen_simps)
  have pre: "\<not> (op n0 = OpMinus \<and> (\<exists>l. left n0 = Some l \<and> op l = OpMinus))
          \<and> \<not> (op n0 = OpPow \<and> (\<exists>l. left n0 = Some l \<and> op l = OpMinus))
          \<and> duoUnchanged n0 \<and> trioUnchanged n0"
    using d t by (simp add: n0_def)
  from C4_unrewritten_root [OF h, THEN conjunct1, rule_format, OF pre] obtain l' cl r' cr where
    x: "child Simplify (left n0) = Some (Inr (l', cl))"
      "child Simplify (right n0) = Some (Inr (r', cr))"
      "if cl \<or> cr
       then \<exists>r c. Simplify (Node l' r' (val n0) (op n0)) = Some (Inr (r, c))
                  \<and> Simplify n0 = Some (Inr (r, True))
       else Simplify n0 = Some (Inr (n0, False))"
    by blast
  from x(1,2) c have "l' = Some (newIntNode 3)" "\<not> cl"
    "r' = Some (unaryNode OpMinus (binaryNode OpMul (newIntNode 2) (newIntNode 5)))" "cr"
    by simp_all
  with x(3) s(3) have "Simplify n0
       = Some (Inr (binaryNode OpSub (newIntNode 3) (binaryNode OpMul (newIntNode 2) (newIntNode 5)), True))"
    by (simp add: n0_def)
  then show ?thesis
    using h c s(3) by (simp add: n0_def)
qed

text \<open>
  The claim as the specification states it fails twice. At \<open>3 + (--2 * 5)\<close> no rule
  rewrites the root, the right child's canonical form is \<open>--(2 * 5)\<close>, and the
  canonicalizer returns \<open>3 - (2 * 5)\<close>: another operator, and a right child that is not
  the canonical form of the original right child. At \<open>(-- -- --2) ^ 3\<close> no rule rewrites
  the root either, and the node is returned as it is, although the canonical form of its
  left child is \<open>--2\<close>.
\<close>

theorem C4_unrewritten_root_counterexample:
  "valid_tree (binaryNode OpAdd (newIntNode 3)
                 (binaryNode OpMul (unaryNode OpMinus (newIntNode 2)) (newIntNode 5)))
   \<and> duoUnchanged (binaryNode OpAdd (newIntNode 3)
                     (binaryNode OpMul (unaryNode OpMinus (newIntNode 2)) (newIntNode 5)))
   \<and> trioUnchanged (binaryNode OpAdd (newIntNode 3)
                      (binaryNode OpMul (unaryNode OpMinus (newIntNode 2)) (newIntNode 5)))
   \<and> Simplify (newIntNode 3) = Some (Inr (newIntNode 3, False))
   \<and> Simplify (binaryNode OpMul (unaryNode OpMinus (newIntNode 2)) (newIntNode 5))
       = Some (Inr (unaryNode OpMinus (binaryNode OpMul (newIntNode 2) (newIntNode 5)), True))
   \<and> Simplify (binaryNode OpAdd (newIntNode 3)
                 (binaryNode OpMul (unaryNode OpMinus (newIntNode 2)) (newIntNode 5)))
       = Some (Inr (binaryNode OpSub (newIntNode 3) (binaryNode OpMul (newIntNode 2) (newIntNode 5)), True))
   \<and> op (binaryNode OpSub (newIntNode 3) (binaryNode OpMul (newIntNode 2) (newIntNode 5))) \<noteq> OpAdd
   \<and> right (binaryNode OpSub (newIntNode 3) (binaryNode OpMul (newIntNode 2) (newIntNode 5)))
       \<noteq> Some (unaryNode OpMinus (binaryNode OpMul (newIntNode 2) (newIntNode 5)))
   \<and> valid_tree (binaryNode OpPow (unaryNode OpMinus (unaryNode OpMinus (unaryNode OpMinus (newIntNode 2))))
                   (newIntNode 3))
   \<and> Simplify (unaryNode OpMinus (unaryNode OpMinus (unaryNode OpMinus (newIntNode 2))))
       = Some (Inr (unaryNode OpMinus (newIntNode 2), True))
   \<and> Simplify (binaryNode OpPow (unaryNode OpMinus (unaryNode OpMinus (unaryNode OpMinus (newIntNode 2))))
                 (newIntNode 3))
       = Some (Inr (binaryNode OpPow (unaryNode OpMinus (unaryNode OpMinus (unaryNode OpMinus (newIntNode 2))))
                      (newIntNode 3), False))
   \<and> left (binaryNode OpPow (unaryNode OpMinus (unaryNode OpMinus (unaryNode OpMinus (newIntNode 2))))
              (newIntNode 3))
       \<noteq> Some (unaryNode OpMinus (newIntNode 2))"
proof -
  have s: "Simplify (newIntNode 3) = Some (Inr (newIntNode 3, False))"
    "Simplify (binaryNode OpMul (unaryNode OpMinus (newIntNode 2)) (newIntNode 5))
       = Some (Inr (unaryNode OpMinus (binaryNode OpMul (newIntNode 2) (newIntNode 5)), True))"
    "Simplify (binaryNode OpAdd (newIntNode 3)
                 (binaryNode OpMul (unaryNode OpMinus (newIntNode 2)) (newIntNode 5)))
       = Some (Inr (binaryNode OpSub (newIntNode 3) (binaryNode OpMul (newIntNode 2) (newIntNode 5)), True))"
    "Simplify (unaryNode OpMinus (unaryNode OpMinus (unaryNode OpMinus (newIntNode 2))))
       = Some (Inr (unaryNode OpMinus (newIntNode 2), True))"
    "Simplify (binaryNode OpPow (unaryNode OpMinus (unaryNode OpMinus (unaryNode OpMinus (newIntNode 2))))
                 (newIntNode 3))
       = Some (Inr (binaryNode OpPow (unaryNode OpMinus (unaryNode OpMinus (unaryNode OpMinus (newIntNode 2))))
                      (newIntNode 3), False))"
    by (simp_all add: Simplify.simps simplify_defs cong: andThen_cong_weak)
  have d: "duoUnchanged (binaryNode OpAdd (newIntNode 3)
                     (binaryNode OpMul (unaryNode OpMinus (newIntNode 2)) (newIntNode 5)))"
    by (simp add: duoUnchanged_def duoTable_def transformDuo_def operand_def s(1) andThen_simps newIntNode_sel)
  have t: "trioUnchanged (binaryNode OpAdd (newIntNode 3)
                      (binaryNode OpMul (unaryNode OpMinus (newIntNode 2)) (newIntNode 5)))"
    by (simp add: trioUnchanged_def trioTable_def transformTrio_def)
  have v: "valid_tree (binaryNode OpAdd (newIntNode 3)
                 (binaryNode OpMul (unaryNode OpMinus (newIntNode 2)) (newIntNode 5)))"
    "valid_tree (binaryNode OpPow (unaryNode OpMinus (unaryNode OpMinus (unaryNode OpMinus (newIntNode 2))))
                   (newIntNode 3))"
    by (simp_all add: valid_tree_defs)
  show ?thesis
    using s d t v by (simp add: newIntNode_def)
qed

section \<open>Parsing a serialized tree\<close>

lemma digit_char_cases:
  assumes "d < 10"
  shows "digit_char d \<in> set ''0123456789'' \<and> digit_val (digit_char d) = d"
proof -
  from assms have "d = 0 \<or> d = 1 \<or> d = 2 \<or> d = 3 \<or> d = 4 \<or> d = 5 \<or> d = 6 \<or> d = 7 \<or> d = 8 \<or> d = 9"
    by arith
  then show ?thesis
    by (elim disjE) (simp_all add: digit_char_def digit_val_def)
qed

lemma isDigit_digit_char: "d < 10 \<Longrightarrow> isDigit (digit_char d)"
  using digit_char_cases [of d] by (simp add: isDigit_def)

lemma digit_val_digit_char: "d < 10 \<Longrightarrow> digit_val (digit_char d) = d"
  using digit_char_cases [of d] by simp

lemma isDigit_not_space: "isDigit c \<Longrightarrow> \<not> isSpace c \<and> \<not> isRxSpace c \<and> c \<noteq> CHR ''/'' \<and> c \<noteq> CHR ''-''"
  by (auto simp: isDigit_def isSpace_def isRxSpace_def)

lemma show_nat_digits: "show_nat n \<noteq> [] \<and> list_all isDigit (show_nat n)"
proof (induction n rule: show_nat.induct)
  case (1 n)
  show ?case
  proof (cases "n < 10")
    case True
    then show ?thesis by (subst (1 2) show_nat.simps) (simp add: isDigit_digit_char)
  next
    case False
    then show ?thesis
      using 1 by (subst (1 2) show_nat.simps) (simp add: isDigit_digit_char)
  qed
qed

lemma nat_of_digits_snoc: "nat_of_digits (ds @ [c]) = 10 * nat_of_digits ds + digit_val c"
  by (simp add: nat_of_digits_def)

lemma nat_of_digits_show_nat: "nat_of_digits (show_nat n) = n"
proof (induction n rule: show_nat.induct)
  case (1 n)
  show ?case
  proof (cases "n < 10")
    case True
    then show ?thesis
      by (subst show_nat.simps) (simp add: nat_of_digits_def digit_val_digit_char)
  next
    case False
    then show ?thesis
      using 1 by (subst show_nat.simps) (simp add: nat_of_digits_snoc digit_val_digit_char)
  qed
qed

text \<open>\<open>rtrim\<close> strips the white space at the end of a string, as \<open>TrimSpace\<close> does.\<close>

definition rtrim :: "string \<Rightarrow> string" where
  "rtrim s = rev (dropWhile isSpace (rev s))"

lemma takeWhile_prefix:
  assumes "list_all P xs" "ys = [] \<or> \<not> P (hd ys)"
  shows "takeWhile P (xs @ ys) = xs" "dropWhile P (xs @ ys) = ys"
proof -
  have a: "\<forall>x\<in>set xs. P x" using assms(1) by (simp add: list_all_iff)
  have "takeWhile P ys = []" "dropWhile P ys = ys"
    using assms(2) by (cases ys; simp)+
  then show "takeWhile P (xs @ ys) = xs" "dropWhile P (xs @ ys) = ys"
    using a by (simp_all add: takeWhile_append2 dropWhile_append2)
qed

lemma rtrim_hd: "rest = [] \<or> isSpace (hd rest) \<Longrightarrow> rtrim rest = [] \<or> isSpace (hd (rtrim rest))"
proof (cases "rtrim rest = []")
  case False
  assume a: "rest = [] \<or> isSpace (hd rest)"
  from False have ne: "dropWhile isSpace (rev rest) \<noteq> []" by (simp add: rtrim_def)
  then have "last (dropWhile isSpace (rev rest)) = last (rev rest)"
    by (rule last_dropWhile_ne)
  moreover have "rest \<noteq> []" using ne by auto
  ultimately have "hd (rtrim rest) = hd rest"
    using ne by (simp add: rtrim_def hd_rev last_rev)
  then show ?thesis using a \<open>rest \<noteq> []\<close> by simp
qed simp

lemma rtrim_token:
  assumes "s \<noteq> []" "\<not> isSpace (last s)"
  shows "rtrim (s @ rest) = s @ rtrim rest"
proof -
  have "dropWhile isSpace (rev s) = rev s"
    using assms by (simp add: dropWhile_eq_self_iff hd_rev)
  then show ?thesis
    by (simp add: rtrim_def dropWhile_append)
qed

lemma rtrim_idem: "rtrim (rtrim s) = rtrim s"
proof (cases "rtrim s = []")
  case True
  then show ?thesis by (simp add: rtrim_def)
next
  case False
  then have "\<not> isSpace (hd (dropWhile isSpace (rev s)))"
    by (simp add: rtrim_def hd_dropWhile)
  then show ?thesis
    by (simp add: rtrim_def dropWhile_eq_self_iff)
qed

lemma TrimSpace_token:
  assumes "list_all isSpace ws" "s \<noteq> []" "\<not> isSpace (hd s)" "\<not> isSpace (last s)"
  shows "TrimSpace (ws @ s @ rest) = s @ rtrim rest"
proof -
  have "dropWhile isSpace (ws @ s @ rest) = s @ rest"
    using assms(1-3) by (intro takeWhile_prefix(2)) auto
  then show ?thesis
    using rtrim_token [OF assms(2,4)] by (simp add: TrimSpace_def rtrim_def)
qed

text \<open>What \<open>ToPolish\<close> writes: the text of a leaf, and the text of an operator node.\<close>

lemma rational_String_parts:
  obtains sg ds1 ds2 where "rational_String r = sg @ ds1 @ ''/'' @ ds2"
    "sg = ''-'' \<or> sg = []" "ds1 \<noteq> []" "list_all isDigit ds1" "ds2 \<noteq> []" "list_all isDigit ds2"
    "of_int (if sg = ''-'' then - int (nat_of_digits ds1) else int (nat_of_digits ds1))
       / of_nat (nat_of_digits ds2) = r"
    "nat_of_digits ds2 \<noteq> 0"
proof -
  obtain p q where pq: "quotient_of r = (p, q)" by (cases "quotient_of r") auto
  have q0: "0 < q" using pq by (rule quotient_of_denom_pos)
  have r: "r = of_int p / of_int q" using pq by (rule quotient_of_div)
  show thesis
  proof (rule that [of "if p < 0 then ''-'' else []" "show_nat (nat \<bar>p\<bar>)" "show_nat (nat q)"])
    show "rational_String r = (if p < 0 then ''-'' else []) @ show_nat (nat \<bar>p\<bar>) @ ''/'' @ show_nat (nat q)"
      by (simp add: rational_String_def pq)
    show "of_int (if (if p < 0 then ''-'' else []) = ''-''
                  then - int (nat_of_digits (show_nat (nat \<bar>p\<bar>)))
                  else int (nat_of_digits (show_nat (nat \<bar>p\<bar>))))
            / of_nat (nat_of_digits (show_nat (nat q))) = r"
      using q0 by (simp add: nat_of_digits_show_nat r)
    show "nat_of_digits (show_nat (nat q)) \<noteq> 0"
      using q0 by (simp add: nat_of_digits_show_nat)
  qed (simp_all add: show_nat_digits)
qed

lemma ratRx_leaf:
  assumes "sg = ''-'' \<or> sg = []" "ds1 \<noteq> []" "list_all isDigit ds1" "ds2 \<noteq> []"
    "list_all isDigit ds2" "rest = [] \<or> \<not> isDigit (hd rest)"
  shows "ratRx_FindStringIndex (sg @ ds1 @ ''/'' @ ds2 @ rest) = Some (length (sg @ ds1 @ ''/'' @ ds2))"
proof -
  have d1: "isDigit (hd ds1)" using assms(2,3) by (cases ds1) auto
  have t1: "takeWhile isDigit (ds1 @ ''/'' @ ds2 @ rest) = ds1"
    using assms(3) by (intro takeWhile_prefix(1)) (auto simp: isDigit_def)
  have t2: "takeWhile isDigit (ds2 @ rest) = ds2"
    using assms(5,6) by (intro takeWhile_prefix(1))
  have ws: "takeWhile isRxSpace (sg @ ds1 @ ''/'' @ ds2 @ rest) = []"
    using assms(1,2) d1 by (cases ds1) (auto simp: isRxSpace_def dest: isDigit_not_space)
  from assms(1) show ?thesis
  proof
    assume "sg = ''-''"
    then show ?thesis
      using assms(2,4) t1 t2 by (simp add: ratRx_FindStringIndex_def ws HasPrefix_def Let_def isRxSpace_def)
  next
    assume sg: "sg = []"
    have "take (Suc 0) (ds1 @ ''/'' @ ds2 @ rest) \<noteq> ''-''"
      using assms(2) d1 by (cases ds1) (auto dest: isDigit_not_space)
    then show ?thesis
      using assms(2,4) t1 t2 ws by (simp add: ratRx_FindStringIndex_def sg HasPrefix_def Let_def)
  qed
qed

lemma newRationalFromString_leaf:
  assumes "sg = ''-'' \<or> sg = []" "ds1 \<noteq> []" "list_all isDigit ds1" "ds2 \<noteq> []"
    "list_all isDigit ds2" "nat_of_digits ds2 \<noteq> 0"
  shows "newRationalFromString (sg @ ds1 @ ''/'' @ ds2)
         = Inr (Some (of_int (if sg = ''-'' then - int (nat_of_digits ds1) else int (nat_of_digits ds1))
                      / of_nat (nat_of_digits ds2)))"
proof -
  have d1: "isDigit (hd ds1)" using assms(2,3) by (cases ds1) auto
  have t: "takeWhile isDigit (ds1 @ ''/'' @ ds2) = ds1" "dropWhile isDigit (ds1 @ ''/'' @ ds2) = ''/'' @ ds2"
    using assms(3) by (auto intro!: takeWhile_prefix simp: isDigit_def)
  from assms(1) show ?thesis
  proof
    assume "sg = ''-''"
    then show ?thesis
      using assms(2,4,5,6) t by (simp add: newRationalFromString_def HasPrefix_def Let_def)
  next
    assume sg: "sg = []"
    have "take (Suc 0) (ds1 @ ''/'' @ ds2) \<noteq> ''-''"
      using assms(2) d1 by (cases ds1) (auto dest: isDigit_not_space)
    then show ?thesis
      using assms(2,4,5,6) t by (simp add: newRationalFromString_def sg HasPrefix_def Let_def)
  qed
qed

lemma operator_token:
  assumes "p \<noteq> OpNull"
  shows "ratRx_FindStringIndex (opNames p @ '' '' @ x) = None"
    and "parseOperator (opNames p @ '' '' @ x) = Inr (p, '' '' @ x)"
    and "opNames p \<noteq> []" and "\<not> isSpace (hd (opNames p))"
    and "(if p \<noteq> OpMinus then opNames p else ''--'') = opNames p"
  using assms
  by (cases p; simp add: ratRx_FindStringIndex_def parseOperator_def HasPrefix_def opKeys_def
      isRxSpace_def isDigit_def isSpace_def Let_def)+

lemma unary_not_binary: "unary p \<Longrightarrow> \<not> binary p"
  by (cases p) (simp_all add: binary_def unary_def)

lemma ToPolish_leaf:
  "valid n \<Longrightarrow> op n = OpNull \<Longrightarrow> val n = Some q \<Longrightarrow> ToPolish n = Inr (rational_String q)"
  by (subst ToPolish.simps) (simp add: Value_String_def)

lemma ToPolish_unary:
  "valid n \<Longrightarrow> unary (op n) \<Longrightarrow> left n = Some l \<Longrightarrow>
   ToPolish n = (case ToPolish l of Inl err \<Rightarrow> Inl err | Inr ls \<Rightarrow> Inr (opNames (op n) @ '' '' @ ls))"
  by (subst ToPolish.simps) (simp add: op_kinds unary_not_binary operator_token(5) Let_def split: sum.splits)

lemma ToPolish_binary:
  "valid n \<Longrightarrow> binary (op n) \<Longrightarrow> left n = Some l \<Longrightarrow> right n = Some r \<Longrightarrow>
   ToPolish n = (case ToPolish l of
                   Inl err \<Rightarrow> Inl err
                 | Inr ls \<Rightarrow> (case ToPolish r of
                               Inl err \<Rightarrow> Inl err
                             | Inr rs \<Rightarrow> Inr (opNames (op n) @ '' '' @ ls @ '' '' @ rs)))"
  by (subst ToPolish.simps) (simp add: op_kinds operator_token(5) Let_def split: sum.splits)

lemma ToPolish_valid_tree:
  "valid_tree t \<Longrightarrow> \<exists>s. ToPolish t = Inr s \<and> s \<noteq> [] \<and> \<not> isSpace (hd s) \<and> \<not> isSpace (last s)"
proof (induction "size t" arbitrary: t rule: less_induct)
  case less
  note v = valid_tree_valid [OF less.prems]
  have ih: "\<exists>s. ToPolish c = Inr s \<and> s \<noteq> [] \<and> \<not> isSpace (hd s) \<and> \<not> isSpace (last s)"
    if "left t = Some c \<or> right t = Some c" for c
  proof (rule less.hyps)
    show "size c < size t" using that by (auto simp: size_left size_right)
    show "valid_tree c" using that less.prems by (auto dest: valid_tree_left valid_tree_right)
  qed
  from valid_shape [OF v] show ?case
  proof (elim disjE conjE exE)
    assume o: "op t = OpNull"
    then obtain q where q: "val t = Some q" using valid_tree_val [OF less.prems] by auto
    obtain sg ds1 ds2 where p: "rational_String q = sg @ ds1 @ ''/'' @ ds2"
      "sg = ''-'' \<or> sg = []" "ds1 \<noteq> []" "list_all isDigit ds1" "ds2 \<noteq> []" "list_all isDigit ds2"
      by (rule rational_String_parts)
    have "isDigit (hd ds1)" "isDigit (last ds2)"
      using p(3-6) by (auto simp: list_all_iff)
    then have "\<not> isSpace (hd (rational_String q))" "\<not> isSpace (last (rational_String q))"
      using p(2,3,5) unfolding p(1)
      by (auto simp: isSpace_def hd_append dest: isDigit_not_space)
    then show ?thesis
      using ToPolish_leaf [OF v o q] p(1,3) by auto
  next
    fix l r assume b: "binary (op t)" and lr: "left t = Some l" "right t = Some r"
    from ih [of l] ih [of r] lr obtain ls rs where
      s: "ToPolish l = Inr ls" "ToPolish r = Inr rs" "rs \<noteq> []" "\<not> isSpace (last rs)"
      by auto
    have "op t \<noteq> OpNull" using b by (simp add: op_kinds)
    then show ?thesis
      using operator_token(3,4) [of "op t"] s
      by (simp add: ToPolish_binary [OF v b lr] hd_append)
  next
    fix l assume u: "unary (op t)" and l: "left t = Some l" "right t = None"
    from ih [of l] l obtain ls where
      s: "ToPolish l = Inr ls" "ls \<noteq> []" "\<not> isSpace (last ls)"
      by auto
    have "op t \<noteq> OpNull" using u by (simp add: op_kinds)
    then show ?thesis
      using operator_token(3,4) [of "op t"] s
      by (simp add: ToPolish_unary [OF v u l(1)] hd_append)
  qed
qed

text \<open>
  The tree the parser builds from the text of \<open>t\<close>: the parser leaves the value of an
  operator node nil, and \<open>Equal\<close> does not look at it.
\<close>

primrec parsed :: "Node \<Rightarrow> Node" where
  "parsed (Node l r v p) =
     Node (map_option parsed l) (map_option parsed r) (if p = OpNull then v else None) p"

lemma parsed_sel:
  "op (parsed t) = op t" "left (parsed t) = map_option parsed (left t)"
  "right (parsed t) = map_option parsed (right t)"
  "val (parsed t) = (if op t = OpNull then val t else None)"
  by (cases t; simp)+

lemma parsed_leaf: "valid t \<Longrightarrow> op t = OpNull \<Longrightarrow> parsed t = newValNode (val t)"
  by (cases t) (simp add: valid_def newValNode_def)

lemma parsed_unary:
  "left t = Some l \<Longrightarrow> right t = None \<Longrightarrow> unary (op t) \<Longrightarrow>
   newNode (Some (parsed l)) (op t) None = Inr (parsed t)"
  by (cases t) (simp add: newNode_def valid_unary op_kinds)

lemma parsed_binary:
  "left t = Some l \<Longrightarrow> right t = Some r \<Longrightarrow> binary (op t) \<Longrightarrow>
   newNode (Some (parsed l)) (op t) (Some (parsed r)) = Inr (parsed t)"
  by (cases t) (simp add: newNode_def valid_binary op_kinds)

lemma Equal_parsed:
  "valid_tree t \<Longrightarrow> Equal (Some (parsed t)) (Some t) = Inr True \<and> Equal (Some t) (Some (parsed t)) = Inr True"
proof (induction "size t" arbitrary: t rule: less_induct)
  case less
  note v = valid_tree_valid [OF less.prems]
  have ih: "Equal (Some (parsed c)) (Some c) = Inr True \<and> Equal (Some c) (Some (parsed c)) = Inr True"
    if "left t = Some c \<or> right t = Some c" for c
  proof (rule less.hyps)
    show "size c < size t" using that by (auto simp: size_left size_right)
    show "valid_tree c" using that less.prems by (auto dest: valid_tree_left valid_tree_right)
  qed
  from valid_shape [OF v] show ?case
  proof (elim disjE conjE exE)
    assume "op t = OpNull"
    then show ?thesis
      using valid_tree_val [OF less.prems]
      by (subst (1 2) Equal.simps) (auto simp: Value_Equal_def parsed_sel)
  next
    fix l r assume b: "binary (op t)" and lr: "left t = Some l" "right t = Some r"
    show ?thesis
      using b ih [of l] ih [of r] by (subst (1 2) Equal.simps) (simp add: lr op_kinds parsed_sel)
  next
    fix l assume u: "unary (op t)" and l: "left t = Some l" "right t = None"
    show ?thesis
      using u ih [of l] by (subst (1 2) Equal.simps) (simp add: l op_kinds parsed_sel)
  qed
qed

lemma parse_ToPolish:
  assumes "valid_tree t" "ToPolish t = Inr s" "list_all isSpace ws" "rest = [] \<or> isSpace (hd rest)"
  shows "parseNodeFromString (ws @ s @ rest) = Some (Inr (parsed t), rtrim rest)"
  using assms
proof (induction "size t" arbitrary: t s ws rest rule: less_induct)
  case less
  note v = valid_tree_valid [OF less.prems(1)]
  from ToPolish_valid_tree [OF less.prems(1)] less.prems(2)
  have tok: "s \<noteq> []" "\<not> isSpace (hd s)" "\<not> isSpace (last s)" by auto
  have trim: "TrimSpace (ws @ s @ rest) = s @ rtrim rest"
    using less.prems(3) tok by (rule TrimSpace_token)
  have rest': "rtrim rest = [] \<or> isSpace (hd (rtrim rest))"
    using less.prems(4) by (rule rtrim_hd)
  have ih: "parseNodeFromString ('' '' @ cs @ rest1) = Some (Inr (parsed c), rtrim rest1)"
    if "left t = Some c \<or> right t = Some c" "ToPolish c = Inr cs" "rest1 = [] \<or> isSpace (hd rest1)"
    for c cs rest1
  proof (rule less.hyps)
    show "size c < size t" using that(1) by (auto simp: size_left size_right)
    show "valid_tree c" using that(1) less.prems(1) by (auto dest: valid_tree_left valid_tree_right)
    show "list_all isSpace '' ''" by (simp add: isSpace_def)
  qed (use that in auto)
  from valid_shape [OF v] show ?case
  proof (elim disjE conjE exE)
    assume o: "op t = OpNull"
    then obtain q where q: "val t = Some q" using valid_tree_val [OF less.prems(1)] by auto
    have s: "s = rational_String q"
      using ToPolish_leaf [OF v o q] less.prems(2) by simp
    obtain sg ds1 ds2 where p: "rational_String q = sg @ ds1 @ ''/'' @ ds2"
      "sg = ''-'' \<or> sg = []" "ds1 \<noteq> []" "list_all isDigit ds1" "ds2 \<noteq> []" "list_all isDigit ds2"
      "of_int (if sg = ''-'' then - int (nat_of_digits ds1) else int (nat_of_digits ds1))
         / of_nat (nat_of_digits ds2) = q"
      "nat_of_digits ds2 \<noteq> 0"
      by (rule rational_String_parts)
    have nd: "rtrim rest = [] \<or> \<not> isDigit (hd (rtrim rest))"
      using rest' by (auto dest: isDigit_not_space)
    have rx: "ratRx_FindStringIndex (s @ rtrim rest) = Some (length s)"
      using ratRx_leaf [OF p(2-6) nd] by (simp add: s p(1))
    have "TrimSpace ([] @ s @ []) = s @ rtrim []"
      using tok by (intro TrimSpace_token) auto
    then have ts: "TrimSpace s = s" by (simp add: rtrim_def)
    have nr: "newRationalFromString s = Inr (Some q)"
      using newRationalFromString_leaf [OF p(2-6,8)] by (simp add: s p(1) p(7))
    show ?thesis
      by (subst parseNodeFromString.simps)
        (simp add: trim rx ts nr Let_def parsed_leaf [OF v o] q)
  next
    fix l assume u: "unary (op t)" and l: "left t = Some l" "right t = None"
    have o: "op t \<noteq> OpNull" using u by (simp add: op_kinds)
    from ToPolish_valid_tree [OF valid_tree_left [OF less.prems(1) l(1)]]
    obtain ls where ls: "ToPolish l = Inr ls" by blast
    have s: "s = opNames (op t) @ '' '' @ ls"
      using ToPolish_unary [OF v u l(1)] less.prems(2) ls by simp
    have rec: "parseNodeFromString ('' '' @ ls @ rtrim rest) = Some (Inr (parsed l), rtrim rest)"
      using ih [of l ls "rtrim rest"] l ls rest' by (simp add: rtrim_idem)
    have rx: "ratRx_FindStringIndex (s @ rtrim rest) = None"
      using operator_token(1) [OF o, of "ls @ rtrim rest"] by (simp add: s)
    have po: "parseOperator (s @ rtrim rest) = Inr (op t, '' '' @ ls @ rtrim rest)"
      using operator_token(2) [OF o, of "ls @ rtrim rest"] by (simp add: s)
    show ?thesis
      using rec u tok(1)
      by (subst parseNodeFromString.simps)
        (simp add: trim rx po Let_def parsed_unary [OF l u])
  next
    fix l r assume b: "binary (op t)" and lr: "left t = Some l" "right t = Some r"
    have o: "op t \<noteq> OpNull" and nu: "\<not> unary (op t)" using b by (simp_all add: op_kinds)
    from ToPolish_valid_tree [OF valid_tree_left [OF less.prems(1) lr(1)]]
    obtain ls where ls: "ToPolish l = Inr ls" by blast
    from ToPolish_valid_tree [OF valid_tree_right [OF less.prems(1) lr(2)]]
    obtain rs where rs: "ToPolish r = Inr rs" "rs \<noteq> []" "\<not> isSpace (last rs)" by blast
    have s: "s = opNames (op t) @ '' '' @ ls @ '' '' @ rs"
      using ToPolish_binary [OF v b lr] less.prems(2) ls rs(1) by simp
    have "rtrim (('' '' @ rs) @ rtrim rest) = ('' '' @ rs) @ rtrim (rtrim rest)"
      using rs(2,3) by (intro rtrim_token) auto
    then have rt: "rtrim ('' '' @ rs @ rtrim rest) = '' '' @ rs @ rtrim rest"
      by (simp add: rtrim_idem)
    have rec1: "parseNodeFromString ('' '' @ ls @ '' '' @ rs @ rtrim rest)
                = Some (Inr (parsed l), '' '' @ rs @ rtrim rest)"
      using ih [of l ls "'' '' @ rs @ rtrim rest"] lr ls rt by (simp add: isSpace_def)
    have rec2: "parseNodeFromString ('' '' @ rs @ rtrim rest) = Some (Inr (parsed r), rtrim rest)"
      using ih [of r rs "rtrim rest"] lr rs(1) rest' by (simp add: rtrim_idem)
    have rx: "ratRx_FindStringIndex (s @ rtrim rest) = None"
      using operator_token(1) [OF o, of "ls @ '' '' @ rs @ rtrim rest"] by (simp add: s)
    have po: "parseOperator (s @ rtrim rest) = Inr (op t, '' '' @ ls @ '' '' @ rs @ rtrim rest)"
      using operator_token(2) [OF o, of "ls @ '' '' @ rs @ rtrim rest"] by (simp add: s)
    show ?thesis
      using rec1 rec2 nu tok(1)
      by (subst parseNodeFromString.simps)
        (simp add: trim rx po Let_def parsed_binary [OF lr b])
  qed
qed

text \<open>
  C5. For a well-formed tree \<open>t\<close> the serializer returns a text, the parser accepts
  that text, and the tree it builds is structurally equal to \<open>t\<close> (by \<open>Equal\<close>, in
  either direction).
\<close>

theorem C5_parse_serialize:
  assumes "valid_tree t"
  shows "\<exists>s t'. ToPolish t = Inr s \<and> FromPolish s = Some (Inr t')
               \<and> Equal (Some t') (Some t) = Inr True \<and> Equal (Some t) (Some t') = Inr True"
proof -
  from ToPolish_valid_tree [OF assms] obtain s where s: "ToPolish t = Inr s" "s \<noteq> []"
    "\<not> isSpace (hd s)" "\<not> isSpace (last s)" by blast
  have "TrimSpace ([] @ s @ []) = s @ rtrim []"
    using s(2-4) by (intro TrimSpace_token) auto
  then have ts: "TrimSpace s = s" by (simp add: rtrim_def)
  have "parseNodeFromString ([] @ s @ []) = Some (Inr (parsed t), rtrim [])"
    using assms s(1) by (rule parse_ToPolish) auto
  then have "FromPolish s = Some (Inr (parsed t))"
    by (simp add: FromPolish_def ts)
  with s(1) Equal_parsed [OF assms] show ?thesis
    by blast
qed

theorem C5_parse_serialize_witness:
  "valid_tree (Node (Some (newIntNode 5)) (Some (unaryNode OpSqrt (newIntNode (- 3)))) (Some 7) OpSub)
   \<and> ToPolish (Node (Some (newIntNode 5)) (Some (unaryNode OpSqrt (newIntNode (- 3)))) (Some 7) OpSub)
       = Inr ''- 5/1 sqrt -3/1''
   \<and> FromPolish ''- 5/1 sqrt -3/1''
       = Some (Inr (binaryNode OpSub (newIntNode 5) (unaryNode OpSqrt (newIntNode (- 3)))))
   \<and> Equal (Some (binaryNode OpSub (newIntNode 5) (unaryNode OpSqrt (newIntNode (- 3)))))
           (Some (Node (Some (newIntNode 5)) (Some (unaryNode OpSqrt (newIntNode (- 3)))) (Some 7) OpSub))
       = Inr True"
proof -
  have h: "valid_tree (Node (Some (newIntNode 5)) (Some (unaryNode OpSqrt (newIntNode (- 3)))) (Some 7) OpSub)"
    by (simp add: valid_tree_defs)
  have s: "ToPolish (Node (Some (newIntNode 5)) (Some (unaryNode OpSqrt (newIntNode (- 3)))) (Some 7) OpSub)
       = Inr ''- 5/1 sqrt -3/1''"
    by (simp add: ToPolish.simps valid_def binary_def newIntNode_def Value_String_def
        rational_String_def show_nat.simps digit_char_def)
  have p: "FromPolish ''- 5/1 sqrt -3/1''
       = Some (Inr (binaryNode OpSub (newIntNode 5) (unaryNode OpSqrt (newIntNode (- 3)))))"
    by (simp add: parseNodeFromString.simps parse_defs)
  show ?thesis
    using h s p C5_parse_serialize [OF h] by simp
qed

end
